theory Spec2Isabelle
  imports Complex_Main "HOL-Library.Word"
begin

section \<open>Execution tracking of the ComfyUI client (src/src/client.ts)\<close>

text \<open>
  The development embeds \<^verbatim>\<open>ComfyUIClient.getImages\<close> and the \<^verbatim>\<open>onMessage\<close>
  listener it registers on the WebSocket, together with the one-shot requests they
  issue (\<^verbatim>\<open>queuePrompt\<close>, \<^verbatim>\<open>getHistory\<close>, \<^verbatim>\<open>getImage\<close>).

  Conventions of the embedding:
  \<^item> A JavaScript value obtained from \<^verbatim>\<open>JSON.parse\<close> is a \<open>json\<close>; \<open>None\<close> of
    \<open>json option\<close> is \<^verbatim>\<open>undefined\<close>. A number is the rational value of the parsed
    double (both zeros are \<open>0\<close>; \<^verbatim>\<open>JSON.parse\<close> never yields NaN or an infinity).
  \<^item> \<^verbatim>\<open>JSON.parse\<close> and the HTTP server behind axios are outside the repository:
    they are the fields of an environment record. A server answer may depend on
    every request issued so far.
  \<^item> A thrown exception is the \<open>Inl\<close> of a sum; the promise returned by
    \<^verbatim>\<open>getImages\<close> is the field \<open>promise\<close> of the state and settles at most once.
  \<^item> The events of the socket are delivered one after the other, and the listener
    run started by a frame has finished (all its awaits included) when the next
    event is delivered. This is an assumption: \<^verbatim>\<open>onMessage\<close> is \<^verbatim>\<open>async\<close>, and an
    event that arrives during the awaits of a run overlaps it in the code; such
    overlaps are outside the embedding. Only a completion event of the tracked job
    reaches an await (\<^verbatim>\<open>getHistory\<close>, \<^verbatim>\<open>getImage\<close>): as long as none has been
    delivered, no run is in flight and the embedding is exact.
  \<^item> The client's \<^verbatim>\<open>ws\<close> field does not change while a tracking operation runs.
\<close>

subsection \<open>JavaScript values\<close>

datatype json =
    JNull
  | JBool bool
  | JNum rat
  | JStr string
  | JArr "json list"
  | JObj "(string \<times> json) list"

text \<open>Truthiness, as tested by \<^verbatim>\<open>!messageData.node\<close>.\<close>

fun truthy :: "json option \<Rightarrow> bool" where
  "truthy None = False"
| "truthy (Some JNull) = False"
| "truthy (Some (JBool b)) = b"
| "truthy (Some (JNum q)) = (q \<noteq> 0)"
| "truthy (Some (JStr s)) = (s \<noteq> [])"
| "truthy (Some (JArr xs)) = True"
| "truthy (Some (JObj kvs)) = True"

text \<open>
  Whether the template literal \<^verbatim>\<open>`... ${v}`\<close> can convert a parsed value to a string.
  An object with an own \<^verbatim>\<open>toString\<close> property (never callable after \<^verbatim>\<open>JSON.parse\<close>)
  falls back to \<^verbatim>\<open>Object.prototype.valueOf\<close>, which yields no primitive: a TypeError.
  An array joins the conversions of its elements, \<^verbatim>\<open>null\<close> elements apart.
\<close>

fun template_ok :: "json \<Rightarrow> bool" where
  "template_ok (JObj kvs) = (''toString'' \<notin> fst ` set kvs)"
| "template_ok (JArr xs) = list_all template_ok xs"
| "template_ok _ = True"

subsection \<open>Requests, errors, log lines\<close>

datatype request =
    Get string "(string \<times> string) list"
  | Post string "(string \<times> json) list"

text \<open>
  \<open>Error m\<close> is \<^verbatim>\<open>new Error(m)\<close>; \<open>SyntaxError\<close> is what \<^verbatim>\<open>JSON.parse\<close> throws;
  \<open>TypeError\<close> is a property read of \<^verbatim>\<open>null\<close> or \<^verbatim>\<open>undefined\<close> (or a failed string
  conversion); \<open>AxiosError m r\<close> is the rejection of axios for the request \<open>r\<close>
  (it carries the request's configuration: URL and parameters), with the
  transport's or server's reason \<open>m\<close>.
\<close>

datatype error =
    Error string
  | SyntaxError
  | TypeError
  | AxiosError string request

text \<open>
  The pino logger runs at level \<^verbatim>\<open>info\<close>: the \<^verbatim>\<open>debug\<close> lines of the connection's
  message listener are not written. A log line keeps the value interpolated into it.
\<close>

datatype logline =
    Connection_closed
  | Done_executing_prompt "json option"

subsection \<open>Types of \<^verbatim>\<open>types.ts\<close>\<close>

text \<open>
  Modelled from the spec: \<^verbatim>\<open>src/types.ts\<close> is not part of the sources at hand. The
  history record maps each output node to its outputs, each output referencing a
  filename, a subfolder and a storage type; a node may or may not declare an
  \<^verbatim>\<open>images\<close> field; an artifact is the binary content paired with its reference; the
  result collection maps an output node to the sequence of its artifacts. The
  \<open>outputs\<close> of a history entry are the own properties of the object in the order
  \<^verbatim>\<open>Object.keys\<close> enumerates them. An object used as a dictionary is a map from
  its own keys; node and job identifiers are taken to be ordinary keys (the property
  name \<^verbatim>\<open>__proto__\<close>, which an assignment does not store as an own property, is not
  modelled).
\<close>

type_synonym Buffer = "8 word list"

type_synonym Prompt = json

record ImageRef =
  filename :: string
  subfolder :: string
  type :: string

record NodeOutput =
  images :: "ImageRef list option"

record PromptHistory =
  outputs :: "(string \<times> NodeOutput) list"

type_synonym HistoryResult = "string \<rightharpoonup> PromptHistory"

record QueuePromptResult =
  prompt_id :: string

record ImageContainer =
  buffer :: Buffer
  image :: ImageRef

type_synonym ImagesResponse = "string \<rightharpoonup> ImageContainer list"

subsection \<open>Client, environment, state\<close>

record WebSocket =
  url :: string

record ComfyUIClient =
  serverAddress :: string
  clientId :: string
  useHttps :: bool
  useWss :: bool
  ws :: "WebSocket option"
  protocol :: string
  wsProtocol :: string

definition new_ComfyUIClient :: "string \<Rightarrow> string \<Rightarrow> bool \<Rightarrow> bool \<Rightarrow> ComfyUIClient" where
  "new_ComfyUIClient address cid https wss =
     \<lparr> serverAddress = address, clientId = cid, useHttps = https, useWss = wss,
       ws = None,
       protocol = (if https then ''https'' else ''http''),
       wsProtocol = (if wss then ''wss'' else ''ws'') \<rparr>"

record env =
  JSON_parse :: "string \<Rightarrow> json option"
  post_prompt :: "request list \<Rightarrow> request \<Rightarrow> string + QueuePromptResult"
  get_history :: "request list \<Rightarrow> request \<Rightarrow> string + HistoryResult"
  get_view :: "request list \<Rightarrow> request \<Rightarrow> string + Buffer"

datatype outcome =
    Pending
  | Resolved ImagesResponse
  | Rejected error

text \<open>
  The state of one call of \<^verbatim>\<open>getImages\<close> and of the world it acts on: the HTTP
  requests issued so far (oldest first), the log, whether the socket has emitted
  \<^verbatim>\<open>close\<close>, whether \<^verbatim>\<open>onMessage\<close> is a \<^verbatim>\<open>message\<close> listener of the socket, and the
  variables of the closure (\<^verbatim>\<open>promptId\<close>, \<^verbatim>\<open>outputImages\<close>, the promise).
\<close>

record state =
  requests :: "request list"
  log :: "logline list"
  closed :: bool
  registered :: bool
  promptId :: string
  outputImages :: ImagesResponse
  promise :: outcome

definition resolve :: "ImagesResponse \<Rightarrow> state \<Rightarrow> state" where
  "resolve r s = (if promise s = Pending then s\<lparr>promise := Resolved r\<rparr> else s)"

definition reject :: "error \<Rightarrow> state \<Rightarrow> state" where
  "reject err s = (if promise s = Pending then s\<lparr>promise := Rejected err\<rparr> else s)"

definition logger_info :: "logline \<Rightarrow> state \<Rightarrow> state" where
  "logger_info l s = s\<lparr>log := log s @ [l]\<rparr>"

subsection \<open>One-shot requests\<close>

definition base_url :: "ComfyUIClient \<Rightarrow> string" where
  "base_url c = protocol c @ ''://'' @ serverAddress c"

definition axios :: "(request list \<Rightarrow> request \<Rightarrow> string + 'a) \<Rightarrow> request \<Rightarrow> state
    \<Rightarrow> (error + 'a) \<times> state" where
  "axios server r s =
     (case server (requests s) r of
        Inl m \<Rightarrow> (Inl (AxiosError m r), s\<lparr>requests := requests s @ [r]\<rparr>)
      | Inr d \<Rightarrow> (Inr d, s\<lparr>requests := requests s @ [r]\<rparr>))"

definition queuePrompt_request :: "ComfyUIClient \<Rightarrow> Prompt \<Rightarrow> request" where
  "queuePrompt_request c prompt =
     Post (base_url c @ ''/prompt'') [(''prompt'', prompt), (''client_id'', JStr (clientId c))]"

definition queuePrompt :: "ComfyUIClient \<Rightarrow> env \<Rightarrow> Prompt \<Rightarrow> state
    \<Rightarrow> (error + QueuePromptResult) \<times> state" where
  "queuePrompt c e prompt s = axios (post_prompt e) (queuePrompt_request c prompt) s"

definition getHistory_request :: "ComfyUIClient \<Rightarrow> string \<Rightarrow> request" where
  "getHistory_request c pid =
     Get (base_url c @ ''/history'' @ (if pid \<noteq> [] then ''/'' @ pid else [])) []"

definition getHistory :: "ComfyUIClient \<Rightarrow> env \<Rightarrow> string \<Rightarrow> state
    \<Rightarrow> (error + HistoryResult) \<times> state" where
  "getHistory c e pid s = axios (get_history e) (getHistory_request c pid) s"

definition getImage_request :: "ComfyUIClient \<Rightarrow> ImageRef \<Rightarrow> request" where
  "getImage_request c i =
     Get (base_url c @ ''/view'')
       [(''filename'', filename i), (''subfolder'', subfolder i), (''type'', type i)]"

definition getImage :: "ComfyUIClient \<Rightarrow> env \<Rightarrow> ImageRef \<Rightarrow> state
    \<Rightarrow> (error + Buffer) \<times> state" where
  "getImage c e i s = axios (get_view e) (getImage_request c i) s"

subsection \<open>The listener \<^verbatim>\<open>onMessage\<close>\<close>

text \<open>
  Reading a property of a parsed value. The listener reads \<^verbatim>\<open>type\<close>, \<^verbatim>\<open>data\<close>,
  \<^verbatim>\<open>node\<close> and \<^verbatim>\<open>prompt_id\<close> only, which no prototype defines: on a string, number,
  boolean or array they are \<^verbatim>\<open>undefined\<close>.
\<close>

fun read_prop :: "json option \<Rightarrow> string \<Rightarrow> error + json option" where
  "read_prop None k = Inl TypeError"
| "read_prop (Some JNull) k = Inl TypeError"
| "read_prop (Some (JObj kvs)) k = Inr (map_of kvs k)"
| "read_prop (Some v) k = Inr None"

text \<open>The inner loop (lines 289 to 299): one awaited \<^verbatim>\<open>getImage\<close> per reference.\<close>

fun fetch_images :: "ComfyUIClient \<Rightarrow> env \<Rightarrow> ImageRef list \<Rightarrow> ImageContainer list \<Rightarrow> state
    \<Rightarrow> (error + ImageContainer list) \<times> state" where
  "fetch_images c e [] imagesOutput s = (Inr imagesOutput, s)"
| "fetch_images c e (i # rest) imagesOutput s =
     (case getImage c e i s of
        (Inl err, s1) \<Rightarrow> (Inl err, s1)
      | (Inr b, s1) \<Rightarrow> fetch_images c e rest (imagesOutput @ [\<lparr>buffer = b, image = i\<rparr>]) s1)"

text \<open>
  The outer loop (lines 285 to 303) over \<^verbatim>\<open>Object.keys(history.outputs)\<close>; a node
  whose \<^verbatim>\<open>images\<close> is undefined is skipped (an array, empty or not, is truthy).
\<close>

fun populate :: "ComfyUIClient \<Rightarrow> env \<Rightarrow> (string \<times> NodeOutput) list \<Rightarrow> string list \<Rightarrow> state
    \<Rightarrow> (error + unit) \<times> state" where
  "populate c e outs [] s = (Inr (), s)"
| "populate c e outs (nodeId # rest) s =
     (case map_of outs nodeId of
        None \<Rightarrow> (Inl TypeError, s)
      | Some nodeOutput \<Rightarrow>
          (case images nodeOutput of
             None \<Rightarrow> populate c e outs rest s
           | Some imgs \<Rightarrow>
               (case fetch_images c e imgs [] s of
                  (Inl err, s1) \<Rightarrow> (Inl err, s1)
                | (Inr imagesOutput, s1) \<Rightarrow>
                    populate c e outs rest
                      (s1\<lparr>outputImages := (outputImages s1)(nodeId \<mapsto> imagesOutput)\<rparr>))))"

text \<open>Lines 281 to 303: the history of the tracked job, then its images.\<close>

definition collect :: "ComfyUIClient \<Rightarrow> env \<Rightarrow> state \<Rightarrow> (error + unit) \<times> state" where
  "collect c e s =
     (case getHistory c e (promptId s) s of
        (Inl err, s1) \<Rightarrow> (Inl err, s1)
      | (Inr historyRes, s1) \<Rightarrow>
          (case historyRes (promptId s) of
             None \<Rightarrow> (Inl TypeError, s1)
           | Some history \<Rightarrow> populate c e (outputs history) (map fst (outputs history)) s1))"

definition ws_off :: "ComfyUIClient \<Rightarrow> state \<Rightarrow> state" where
  "ws_off c s = (case ws c of None \<Rightarrow> s | Some sock \<Rightarrow> s\<lparr>registered := False\<rparr>)"

definition ws_on :: "ComfyUIClient \<Rightarrow> state \<Rightarrow> state" where
  "ws_on c s = (case ws c of None \<Rightarrow> s | Some sock \<Rightarrow> s\<lparr>registered := True\<rparr>)"

text \<open>
  Lines 274 to 308, entered when \<^verbatim>\<open>messageData.node\<close> is falsy. The result \<open>Inr True\<close>
  says that \<^verbatim>\<open>resolve(outputImages)\<close> was reached, \<open>Inr False\<close> that the listener
  returned without settling anything, \<open>Inl err\<close> that \<open>err\<close> was thrown.
\<close>

definition done_branch :: "ComfyUIClient \<Rightarrow> env \<Rightarrow> json option \<Rightarrow> state
    \<Rightarrow> (error + bool) \<times> state" where
  "done_branch c e messageData s =
     (case read_prop messageData ''prompt_id'' of
        Inl err \<Rightarrow> (Inl err, s)
      | Inr donePromptId \<Rightarrow>
          (if \<not> (case donePromptId of None \<Rightarrow> True | Some v \<Rightarrow> template_ok v)
           then (Inl TypeError, s)
           else
             (let s1 = logger_info (Done_executing_prompt donePromptId) s in
              if donePromptId = Some (JStr (promptId s1)) then
                (case collect c e s1 of
                   (Inl err, s2) \<Rightarrow> (Inl err, s2)
                 | (Inr u, s2) \<Rightarrow> (Inr True, ws_off c s2))
              else (Inr False, s1))))"

text \<open>The body of the \<^verbatim>\<open>try\<close> block (lines 270 to 310).\<close>

definition try_block :: "ComfyUIClient \<Rightarrow> env \<Rightarrow> string \<Rightarrow> state \<Rightarrow> (error + bool) \<times> state" where
  "try_block c e data s =
     (case JSON_parse e data of
        None \<Rightarrow> (Inl SyntaxError, s)
      | Some message \<Rightarrow>
          (case read_prop (Some message) ''type'' of
             Inl err \<Rightarrow> (Inl err, s)
           | Inr ty \<Rightarrow>
               (if ty = Some (JStr ''executing'') then
                  (case read_prop (Some message) ''data'' of
                     Inl err \<Rightarrow> (Inl err, s)
                   | Inr messageData \<Rightarrow>
                       (case read_prop messageData ''node'' of
                          Inl err \<Rightarrow> (Inl err, s)
                        | Inr node \<Rightarrow>
                            (if \<not> truthy node then done_branch c e messageData s
                             else (Inr False, s))))
                else (Inr False, s))))"

definition onMessage :: "ComfyUIClient \<Rightarrow> env \<Rightarrow> string \<Rightarrow> bool \<Rightarrow> state \<Rightarrow> state" where
  "onMessage c e data isBinary s =
     (if isBinary then s
      else
        (case try_block c e data s of
           (Inl err, s1) \<Rightarrow> reject err s1
         | (Inr True, s1) \<Rightarrow> resolve (outputImages s1) s1
         | (Inr False, s1) \<Rightarrow> s1))"

subsection \<open>The socket and \<^verbatim>\<open>getImages\<close>\<close>

text \<open>
  What the socket emits. The \<^verbatim>\<open>close\<close> listener registered by \<^verbatim>\<open>connect\<close> (lines 77
  to 79) writes a log line and does nothing else; \<^verbatim>\<open>getImages\<close> registers no
  \<^verbatim>\<open>close\<close> listener. A closed socket emits nothing more.
\<close>

datatype event =
    Message string bool
  | Close

fun emit :: "ComfyUIClient \<Rightarrow> env \<Rightarrow> event \<Rightarrow> state \<Rightarrow> state" where
  "emit c e (Message data isBinary) s =
     (if closed s then s
      else if registered s then onMessage c e data isBinary s
      else s)"
| "emit c e Close s =
     (if closed s then s else (logger_info Connection_closed s)\<lparr>closed := True\<rparr>)"

fun deliver :: "ComfyUIClient \<Rightarrow> env \<Rightarrow> event list \<Rightarrow> state \<Rightarrow> state" where
  "deliver c e [] s = s"
| "deliver c e (ev # evs) s = deliver c e evs (emit c e ev s)"

definition not_connected :: string where
  "not_connected = ''WebSocket client is not connected. Please call connect() before interacting.''"

text \<open>
  \<^verbatim>\<open>getImages\<close> up to the registration of the listener (lines 250 to 318). The
  function is \<^verbatim>\<open>async\<close>: the guard's \<^verbatim>\<open>throw\<close> and a failed \<^verbatim>\<open>queuePrompt\<close> reject
  the promise it returns.
\<close>

definition getImages :: "ComfyUIClient \<Rightarrow> env \<Rightarrow> Prompt \<Rightarrow> state \<Rightarrow> state" where
  "getImages c e prompt s =
     (case ws c of
        None \<Rightarrow> s\<lparr>promise := Rejected (Error not_connected)\<rparr>
      | Some sock \<Rightarrow>
          (case queuePrompt c e prompt s of
             (Inl err, s1) \<Rightarrow> s1\<lparr>promise := Rejected err\<rparr>
           | (Inr queue, s1) \<Rightarrow>
               ws_on c (s1\<lparr>promptId := prompt_id queue, outputImages := Map.empty,
                            promise := Pending\<rparr>)))"

subsection \<open>Kinds of events\<close>

definition object_of :: "json option \<Rightarrow> (string \<times> json) list option" where
  "object_of v = (case v of Some (JObj m) \<Rightarrow> Some m | _ \<Rightarrow> None)"

definition string_of :: "json option \<Rightarrow> string option" where
  "string_of v = (case v of Some (JStr j) \<Rightarrow> Some j | _ \<Rightarrow> None)"

text \<open>
  The completion event of job \<open>J\<close>: a text frame that parses to an object of type
  \<^verbatim>\<open>executing\<close> whose \<^verbatim>\<open>data\<close> carries the job identifier \<open>J\<close> and a falsy
  \<^verbatim>\<open>node\<close>.
\<close>

definition completion_for :: "env \<Rightarrow> string \<Rightarrow> event \<Rightarrow> bool" where
  "completion_for e J ev =
     (case ev of
        Close \<Rightarrow> False
      | Message data isBinary \<Rightarrow>
          \<not> isBinary \<and>
          (case object_of (JSON_parse e data) of
             None \<Rightarrow> False
           | Some m \<Rightarrow>
               map_of m ''type'' = Some (JStr ''executing'') \<and>
               (case object_of (map_of m ''data'') of
                  None \<Rightarrow> False
                | Some d \<Rightarrow>
                    \<not> truthy (map_of d ''node'') \<and> map_of d ''prompt_id'' = Some (JStr J))))"

text \<open>
  The events that a tracking operation for job \<open>pid\<close> has no interest in: a binary
  frame; an event object whose type is not \<^verbatim>\<open>executing\<close>; an event object whose
  \<^verbatim>\<open>data\<close> carries another job identifier.
\<close>

definition irrelevant :: "env \<Rightarrow> string \<Rightarrow> event \<Rightarrow> bool" where
  "irrelevant e pid ev =
     (case ev of
        Close \<Rightarrow> False
      | Message data isBinary \<Rightarrow>
          isBinary \<or>
          (case object_of (JSON_parse e data) of
             None \<Rightarrow> False
           | Some m \<Rightarrow>
               map_of m ''type'' \<noteq> Some (JStr ''executing'') \<or>
               (case object_of (map_of m ''data'') of
                  None \<Rightarrow> False
                | Some d \<Rightarrow>
                    (case string_of (map_of d ''prompt_id'') of
                       None \<Rightarrow> False
                     | Some j \<Rightarrow> j \<noteq> pid))))"

text \<open>
  A trace of \<^verbatim>\<open>/view\<close> requests \<open>rs\<close>, issued after the requests \<open>before\<close>, ends at
  its first failure, and that failure is what was thrown.
\<close>

definition stops_at_failure :: "env \<Rightarrow> request list \<Rightarrow> request list \<Rightarrow> (error + 'a) \<Rightarrow> bool" where
  "stops_at_failure e before rs res =
     (\<forall>k < length rs. \<forall>m. get_view e (before @ take k rs) (rs ! k) = Inl m \<longrightarrow>
        res = Inl (AxiosError m (rs ! k)) \<and> Suc k = length rs)"

subsection \<open>A concrete server and its frames\<close>

definition demo_client :: ComfyUIClient where
  "demo_client = (new_ComfyUIClient ''127.0.0.1:8188'' ''c1'' False False)
     \<lparr>ws := Some \<lparr>url = ''ws://127.0.0.1:8188/ws?clientId=c1''\<rparr>\<rparr>"

definition frame_progress :: string where
  \<open>frame_progress = ''{"type":"executing","data":{"node":"3","prompt_id":"abc123"}}''\<close>

definition frame_done :: string where
  \<open>frame_done = ''{"type":"executing","data":{"node":null,"prompt_id":"abc123"}}''\<close>

definition frame_other_done :: string where
  \<open>frame_other_done = ''{"type":"executing","data":{"node":null,"prompt_id":"zzz"}}''\<close>

definition frame_status :: string where
  \<open>frame_status = ''{"type":"status","data":{}}''\<close>

definition frame_garbage :: string where
  "frame_garbage = ''<html>''"

text \<open>What \<^verbatim>\<open>JSON.parse\<close> yields on the five texts above.\<close>

definition demo_parse :: "string \<Rightarrow> json option" where
  "demo_parse t =
     (if t = frame_progress then
        Some (JObj [(''type'', JStr ''executing''),
                    (''data'', JObj [(''node'', JStr ''3''), (''prompt_id'', JStr ''abc123'')])])
      else if t = frame_done then
        Some (JObj [(''type'', JStr ''executing''),
                    (''data'', JObj [(''node'', JNull), (''prompt_id'', JStr ''abc123'')])])
      else if t = frame_other_done then
        Some (JObj [(''type'', JStr ''executing''),
                    (''data'', JObj [(''node'', JNull), (''prompt_id'', JStr ''zzz'')])])
      else if t = frame_status then
        Some (JObj [(''type'', JStr ''status''), (''data'', JObj [])])
      else None)"

definition img_a :: ImageRef where
  "img_a = \<lparr>filename = ''a.png'', subfolder = [], type = ''output''\<rparr>"

definition img_b :: ImageRef where
  "img_b = \<lparr>filename = ''b.png'', subfolder = [], type = ''output''\<rparr>"

definition demo_history :: HistoryResult where
  "demo_history =
     [''abc123'' \<mapsto>
        \<lparr>outputs = [(''9'', \<lparr>images = Some [img_a, img_b]\<rparr>), (''12'', \<lparr>images = None\<rparr>)]\<rparr>]"

definition demo_view :: "request \<Rightarrow> string + Buffer" where
  "demo_view r =
     (if r = getImage_request demo_client img_a then Inr [137, 80, 78, 71]
      else if r = getImage_request demo_client img_b then Inr [66]
      else Inl ''404'')"

definition demo_env :: env where
  "demo_env =
     \<lparr> JSON_parse = demo_parse,
       post_prompt = (\<lambda>before r. Inr \<lparr>prompt_id = ''abc123''\<rparr>),
       get_history = (\<lambda>before r. Inr demo_history),
       get_view = (\<lambda>before. demo_view) \<rparr>"

text \<open>The same server, except that \<^verbatim>\<open>b.png\<close> cannot be downloaded.\<close>

definition flaky_env :: env where
  "flaky_env =
     demo_env\<lparr>get_view := (\<lambda>before r.
        if r = getImage_request demo_client img_b then Inl ''404'' else demo_view r)\<rparr>"

definition init :: state where
  "init = \<lparr> requests = [], log = [], closed = False, registered = False, promptId = [],
            outputImages = Map.empty, promise = Pending \<rparr>"

text \<open>The state in which the demo client listens for job \<^verbatim>\<open>abc123\<close>.\<close>

definition listening :: state where
  "listening = \<lparr> requests = [queuePrompt_request demo_client (JObj [])], log = [],
                 closed = False, registered = True, promptId = ''abc123'',
                 outputImages = Map.empty, promise = Pending \<rparr>"

subsection \<open>Events that change nothing but the log\<close>

lemma object_of_Some: "object_of v = Some m \<longleftrightarrow> v = Some (JObj m)"
  by (cases v; cases "the v") (auto simp: object_of_def)

lemma string_of_Some: "string_of v = Some j \<longleftrightarrow> v = Some (JStr j)"
  by (cases v; cases "the v") (auto simp: string_of_def)

lemma irrelevant_Message:
  "irrelevant e pid (Message data isBinary) \<Longrightarrow> \<not> isBinary \<Longrightarrow>
   \<exists>m. JSON_parse e data = Some (JObj m) \<and>
     (map_of m ''type'' \<noteq> Some (JStr ''executing'') \<or>
      (\<exists>d j. map_of m ''data'' = Some (JObj d) \<and> map_of d ''prompt_id'' = Some (JStr j) \<and> j \<noteq> pid))"
  unfolding irrelevant_def
  by (auto simp: object_of_Some string_of_Some split: option.splits)

lemma irrelevant_emit:
  assumes "irrelevant e (promptId s) ev"
  shows "(emit c e ev s)\<lparr>log := log s\<rparr> = s"
proof (cases ev)
  case Close
  with assms show ?thesis by (simp add: irrelevant_def)
next
  case (Message data isBinary)
  show ?thesis
  proof (cases "isBinary \<or> closed s \<or> \<not> registered s")
    case True
    then show ?thesis using Message by (auto simp: onMessage_def)
  next
    case False
    with assms Message irrelevant_Message[of e "promptId s" data isBinary]
    obtain m where m: "JSON_parse e data = Some (JObj m)"
      and alt: "map_of m ''type'' \<noteq> Some (JStr ''executing'') \<or>
      (\<exists>d j. map_of m ''data'' = Some (JObj d) \<and> map_of d ''prompt_id'' = Some (JStr j) \<and> j \<noteq> promptId s)"
      by auto
    show ?thesis
    proof (cases "map_of m ''type'' = Some (JStr ''executing'')")
      case ne: False
      then show ?thesis using Message False m
        by (simp add: onMessage_def try_block_def)
    next
      case ex: True
      with alt obtain d j where
        d: "map_of m ''data'' = Some (JObj d)" and j: "map_of d ''prompt_id'' = Some (JStr j)"
        and ne: "j \<noteq> promptId s"
        by auto
      show ?thesis using Message False m ex d j ne
        by (simp add: onMessage_def try_block_def done_branch_def logger_info_def)
    qed
  qed
qed

subsection \<open>The requests of the inner loop\<close>

text \<open>
  Every request of \<open>fetch_images\<close> is an image request; the loop stops at the first one
  that fails and throws its error; on success the artifacts follow the references.
\<close>

lemma getImage_eq:
  "getImage c e i s =
     ((case get_view e (requests s) (getImage_request c i) of
         Inl m \<Rightarrow> Inl (AxiosError m (getImage_request c i)) | Inr d \<Rightarrow> Inr d),
      s\<lparr>requests := requests s @ [getImage_request c i]\<rparr>)"
  by (simp add: getImage_def axios_def split: sum.splits)

lemma stops_at_failure_Nil: "stops_at_failure e before [] res"
  by (simp add: stops_at_failure_def)

lemma stops_at_failure_single_Inl:
  "get_view e before r = Inl m \<Longrightarrow> stops_at_failure e before [r] (Inl (AxiosError m r))"
  by (simp add: stops_at_failure_def)

lemma stops_at_failure_Cons:
  assumes "get_view e before r = Inr b" and "stops_at_failure e (before @ [r]) rs res"
  shows "stops_at_failure e before (r # rs) res"
  unfolding stops_at_failure_def
proof (intro allI impI)
  fix k m
  assume k: "k < length (r # rs)"
    and f: "get_view e (before @ take k (r # rs)) ((r # rs) ! k) = Inl m"
  show "res = Inl (AxiosError m ((r # rs) ! k)) \<and> Suc k = length (r # rs)"
  proof (cases k)
    case 0
    with f assms(1) show ?thesis by simp
  next
    case (Suc j)
    with k f have "j < length rs" "get_view e ((before @ [r]) @ take j rs) (rs ! j) = Inl m"
      by simp_all
    with assms(2) have "res = Inl (AxiosError m (rs ! j)) \<and> Suc j = length rs"
      unfolding stops_at_failure_def by blast
    moreover from Suc have "(r # rs) ! k = rs ! j" "length (r # rs) = Suc (length rs)" "k = Suc j"
      by simp_all
    ultimately show ?thesis by metis
  qed
qed

lemma stops_at_failure_Inr:
  "stops_at_failure e before rs (Inr x) \<Longrightarrow> k < length rs \<Longrightarrow>
   \<exists>b. get_view e (before @ take k rs) (rs ! k) = Inr b"
  unfolding stops_at_failure_def
  by (cases "get_view e (before @ take k rs) (rs ! k)") auto

lemma stops_at_failure_append:
  assumes "stops_at_failure e before rs1 (Inr x)" and "stops_at_failure e (before @ rs1) rs2 res"
  shows "stops_at_failure e before (rs1 @ rs2) res"
  unfolding stops_at_failure_def
proof (intro allI impI)
  fix k m
  assume k: "k < length (rs1 @ rs2)"
    and f: "get_view e (before @ take k (rs1 @ rs2)) ((rs1 @ rs2) ! k) = Inl m"
  show "res = Inl (AxiosError m ((rs1 @ rs2) ! k)) \<and> Suc k = length (rs1 @ rs2)"
  proof (cases "k < length rs1")
    case True
    with stops_at_failure_Inr[OF assms(1) True] f show ?thesis by (simp add: nth_append)
  next
    case False
    define j where "j = k - length rs1"
    from False k have j: "j < length rs2" and kj: "k = length rs1 + j" by (simp_all add: j_def)
    from f kj have "get_view e ((before @ rs1) @ take j rs2) (rs2 ! j) = Inl m"
      by (simp add: nth_append)
    with assms(2) j have "res = Inl (AxiosError m (rs2 ! j)) \<and> Suc j = length rs2"
      unfolding stops_at_failure_def by blast
    with kj show ?thesis by (simp add: nth_append)
  qed
qed

lemma fetch_images_trace:
  "fetch_images c e imgs acc s = (res, s') \<Longrightarrow>
   \<exists>rs. s' = s\<lparr>requests := requests s @ rs\<rparr> \<and> stops_at_failure e (requests s) rs res \<and>
        set rs \<subseteq> range (getImage_request c)"
proof (induction imgs arbitrary: acc s)
  case Nil
  then show ?case by (auto simp: stops_at_failure_Nil intro: exI[of _ "[]"])
next
  case (Cons i rest)
  let ?r = "getImage_request c i"
  let ?s1 = "s\<lparr>requests := requests s @ [?r]\<rparr>"
  show ?case
  proof (cases "get_view e (requests s) ?r")
    case (Inl m)
    with Cons.prems have "res = Inl (AxiosError m ?r)" "s' = ?s1"
      by (simp_all add: getImage_eq)
    with Inl show ?thesis
      by (intro exI[of _ "[?r]"]) (simp add: stops_at_failure_single_Inl)
  next
    case (Inr b)
    with Cons.prems have "fetch_images c e rest (acc @ [\<lparr>buffer = b, image = i\<rparr>]) ?s1 = (res, s')"
      by (simp add: getImage_eq)
    from Cons.IH[OF this] obtain rs where
      rs: "s' = ?s1\<lparr>requests := requests ?s1 @ rs\<rparr>" "stops_at_failure e (requests ?s1) rs res"
        "set rs \<subseteq> range (getImage_request c)"
      by blast
    show ?thesis
    proof (intro exI[of _ "?r # rs"] conjI)
      show "s' = s\<lparr>requests := requests s @ ?r # rs\<rparr>" using rs(1) by simp
      show "stops_at_failure e (requests s) (?r # rs) res"
        using stops_at_failure_Cons[OF Inr] rs(2) by simp
      show "set (?r # rs) \<subseteq> range (getImage_request c)" using rs(3) by auto
    qed
  qed
qed

lemma fetch_images_result:
  "fetch_images c e imgs acc s = (Inr cs, s') \<Longrightarrow>
   \<exists>cs'. cs = acc @ cs' \<and> map image cs' = imgs"
proof (induction imgs arbitrary: acc s)
  case Nil
  then show ?case by simp
next
  case (Cons i rest)
  then obtain b where
    "fetch_images c e rest (acc @ [\<lparr>buffer = b, image = i\<rparr>])
       (s\<lparr>requests := requests s @ [getImage_request c i]\<rparr>) = (Inr cs, s')"
    by (auto simp: getImage_eq split: sum.splits)
  from Cons.IH[OF this] show ?case by auto
qed

lemma fetch_images_deterministic:
  "get_view e = (\<lambda>before. f) \<Longrightarrow> fetch_images c e imgs acc s = (Inr cs, s') \<Longrightarrow>
   \<exists>cs'. cs = acc @ cs' \<and>
     list_all2 (\<lambda>x i. image x = i \<and> f (getImage_request c i) = Inr (buffer x)) cs' imgs"
proof (induction imgs arbitrary: acc s)
  case Nil
  then show ?case by simp
next
  case (Cons i rest)
  then obtain b where b: "f (getImage_request c i) = Inr b" and
    "fetch_images c e rest (acc @ [\<lparr>buffer = b, image = i\<rparr>])
       (s\<lparr>requests := requests s @ [getImage_request c i]\<rparr>) = (Inr cs, s')"
    by (auto simp: getImage_eq split: sum.splits)
  from Cons.IH[OF Cons.prems(1) this(2)] b show ?case by auto
qed

subsection \<open>The requests and the result of the outer loop\<close>

lemma stops_at_failure_Inl:
  "stops_at_failure e before rs (Inl err :: error + 'a) \<Longrightarrow>
   stops_at_failure e before rs (Inl err :: error + 'b)"
  by (simp add: stops_at_failure_def)

lemma populate_trace:
  "populate c e outs ks s = (res, s') \<Longrightarrow>
   \<exists>rs oi. s' = s\<lparr>requests := requests s @ rs, outputImages := oi\<rparr> \<and>
     stops_at_failure e (requests s) rs res \<and> set rs \<subseteq> range (getImage_request c)"
proof (induction ks arbitrary: s)
  case Nil
  then have "s' = s\<lparr>requests := requests s @ [], outputImages := outputImages s\<rparr>" by simp
  then show ?case using stops_at_failure_Nil by (metis empty_set empty_subsetI)
next
  case (Cons nodeId rest)
  show ?case
  proof (cases "map_of outs nodeId")
    case None
    with Cons.prems have "s' = s\<lparr>requests := requests s @ [], outputImages := outputImages s\<rparr>"
      by simp
    then show ?thesis using stops_at_failure_Nil by (metis empty_set empty_subsetI)
  next
    case (Some nodeOutput)
    show ?thesis
    proof (cases "images nodeOutput")
      case None
      with Some Cons.prems have "populate c e outs rest s = (res, s')" by simp
      from Cons.IH[OF this] show ?thesis .
    next
      case imgs: (Some imgs)
      obtain r1 s1 where f: "fetch_images c e imgs [] s = (r1, s1)" by (cases "fetch_images c e imgs [] s")
      from fetch_images_trace[OF f] obtain rs1 where
        rs1: "s1 = s\<lparr>requests := requests s @ rs1\<rparr>" "stops_at_failure e (requests s) rs1 r1"
          "set rs1 \<subseteq> range (getImage_request c)" by blast
      show ?thesis
      proof (cases r1)
        case (Inl err)
        with Cons.prems Some imgs f have "res = Inl err" "s' = s1" by simp_all
        with rs1 Inl have "s' = s\<lparr>requests := requests s @ rs1, outputImages := outputImages s\<rparr>"
          "stops_at_failure e (requests s) rs1 res"
          by (simp_all add: stops_at_failure_Inl)
        with rs1(3) show ?thesis by blast
      next
        case (Inr imagesOutput)
        let ?s2 = "s1\<lparr>outputImages := (outputImages s1)(nodeId \<mapsto> imagesOutput)\<rparr>"
        from Cons.prems Some imgs f Inr have "populate c e outs rest ?s2 = (res, s')" by simp
        from Cons.IH[OF this] obtain rs2 oi where
          rs2: "s' = ?s2\<lparr>requests := requests ?s2 @ rs2, outputImages := oi\<rparr>"
            "stops_at_failure e (requests ?s2) rs2 res" "set rs2 \<subseteq> range (getImage_request c)"
          by blast
        have "s' = s\<lparr>requests := requests s @ rs1 @ rs2, outputImages := oi\<rparr>"
          using rs2(1) rs1(1) by simp
        moreover have "stops_at_failure e (requests s) (rs1 @ rs2) res"
          using stops_at_failure_append[of e "requests s" rs1 imagesOutput rs2 res] rs1(1,2) rs2(2) Inr
          by simp
        moreover have "set (rs1 @ rs2) \<subseteq> range (getImage_request c)" using rs1(3) rs2(3) by simp
        ultimately show ?thesis by blast
      qed
    qed
  qed
qed

lemma populate_other:
  "populate c e outs ks s = (Inr u, s') \<Longrightarrow>
   n \<notin> set ks \<or> Option.bind (map_of outs n) images = None \<Longrightarrow>
   outputImages s' n = outputImages s n"
proof (induction ks arbitrary: s)
  case Nil
  then show ?case by simp
next
  case (Cons nodeId rest)
  from Cons.prems(1) obtain nodeOutput where no: "map_of outs nodeId = Some nodeOutput"
    by (cases "map_of outs nodeId") auto
  from Cons.prems(2) have n: "n \<notin> set rest \<or> Option.bind (map_of outs n) images = None" by auto
  show ?case
  proof (cases "images nodeOutput")
    case None
    with no Cons.prems(1) have "populate c e outs rest s = (Inr u, s')" by simp
    from Cons.IH[OF this n] show ?thesis .
  next
    case (Some imgs)
    with no Cons.prems(2) have ne: "n \<noteq> nodeId" by auto
    from Some no Cons.prems(1) obtain imagesOutput s1 where
      f: "fetch_images c e imgs [] s = (Inr imagesOutput, s1)" and
      p: "populate c e outs rest (s1\<lparr>outputImages := (outputImages s1)(nodeId \<mapsto> imagesOutput)\<rparr>)
            = (Inr u, s')"
      by (auto split: prod.splits sum.splits)
    from fetch_images_trace[OF f] have "outputImages s1 = outputImages s" by auto
    with Cons.IH[OF p n] ne show ?thesis by simp
  qed
qed

lemma populate_node:
  assumes Q: "\<And>imgs s cs s'. fetch_images c e imgs [] s = (Inr cs, s') \<Longrightarrow> Q cs imgs"
  shows "populate c e outs ks s = (Inr u, s') \<Longrightarrow> n \<in> set ks \<Longrightarrow>
    map_of outs n = Some out \<Longrightarrow> images out = Some imgs \<Longrightarrow>
    \<exists>cs. outputImages s' n = Some cs \<and> Q cs imgs"
proof (induction ks arbitrary: s)
  case Nil
  then show ?case by simp
next
  case (Cons nodeId rest)
  from Cons.prems(1) obtain nodeOutput where no: "map_of outs nodeId = Some nodeOutput"
    by (cases "map_of outs nodeId") auto
  show ?case
  proof (cases "images nodeOutput")
    case None
    with no Cons.prems have "populate c e outs rest s = (Inr u, s')" "n \<in> set rest" by auto
    from Cons.IH[OF this Cons.prems(3,4)] show ?thesis .
  next
    case (Some imgs')
    from Some no Cons.prems(1) obtain imagesOutput s1 where
      f: "fetch_images c e imgs' [] s = (Inr imagesOutput, s1)" and
      p: "populate c e outs rest (s1\<lparr>outputImages := (outputImages s1)(nodeId \<mapsto> imagesOutput)\<rparr>)
            = (Inr u, s')"
      by (auto split: prod.splits sum.splits)
    show ?thesis
    proof (cases "n \<in> set rest")
      case True
      from Cons.IH[OF p True Cons.prems(3,4)] show ?thesis .
    next
      case False
      with Cons.prems(2) have eq: "n = nodeId" by simp
      with no Some Cons.prems(3,4) have "imgs' = imgs" by simp
      with Q[OF f] have "Q imagesOutput imgs" by simp
      moreover from populate_other[OF p] False eq have "outputImages s' n = Some imagesOutput"
        by simp
      ultimately show ?thesis by blast
    qed
  qed
qed

lemma getHistory_eq:
  "getHistory c e pid s =
     ((case get_history e (requests s) (getHistory_request c pid) of
         Inl m \<Rightarrow> Inl (AxiosError m (getHistory_request c pid)) | Inr d \<Rightarrow> Inr d),
      s\<lparr>requests := requests s @ [getHistory_request c pid]\<rparr>)"
  by (simp add: getHistory_def axios_def split: sum.splits)

lemma collect_result:
  assumes "collect c e s = (Inr u, s')"
  shows "\<exists>hr h. get_history e (requests s) (getHistory_request c (promptId s)) = Inr hr \<and>
     hr (promptId s) = Some h \<and>
     populate c e (outputs h) (map fst (outputs h))
       (s\<lparr>requests := requests s @ [getHistory_request c (promptId s)]\<rparr>) = (Inr u, s')"
  using assms
  by (auto simp: collect_def getHistory_eq split: sum.splits option.splits)

lemma collect_trace:
  assumes "collect c e s = (res, s')"
  shows "\<exists>rs oi. s' = s\<lparr>requests := requests s @ getHistory_request c (promptId s) # rs,
                         outputImages := oi\<rparr> \<and>
     stops_at_failure e (requests s @ [getHistory_request c (promptId s)]) rs res \<and>
     set rs \<subseteq> range (getImage_request c)"
proof -
  let ?h = "getHistory_request c (promptId s)"
  let ?s1 = "s\<lparr>requests := requests s @ [?h]\<rparr>"
  have trivial: "s' = ?s1 \<Longrightarrow> ?thesis"
  proof -
    assume "s' = ?s1"
    then have "s' = s\<lparr>requests := requests s @ ?h # [], outputImages := outputImages s\<rparr>" by simp
    then show ?thesis using stops_at_failure_Nil by (metis empty_set empty_subsetI)
  qed
  show ?thesis
  proof (cases "get_history e (requests s) ?h")
    case (Inl m)
    with assms have "s' = ?s1" by (simp add: collect_def getHistory_eq)
    then show ?thesis by (rule trivial)
  next
    case (Inr hr)
    show ?thesis
    proof (cases "hr (promptId s)")
      case None
      with Inr assms have "s' = ?s1" by (simp add: collect_def getHistory_eq)
      then show ?thesis by (rule trivial)
    next
      case (Some h)
      with Inr assms have "populate c e (outputs h) (map fst (outputs h)) ?s1 = (res, s')"
        by (simp add: collect_def getHistory_eq)
      from populate_trace[OF this] obtain rs oi where
        "s' = ?s1\<lparr>requests := requests ?s1 @ rs, outputImages := oi\<rparr>"
        "stops_at_failure e (requests ?s1) rs res" "set rs \<subseteq> range (getImage_request c)"
        by blast
      then have "s' = s\<lparr>requests := requests s @ ?h # rs, outputImages := oi\<rparr>"
        "stops_at_failure e (requests s @ [?h]) rs res" "set rs \<subseteq> range (getImage_request c)"
        by simp_all
      then show ?thesis by blast
    qed
  qed
qed

subsection \<open>The two ways through the \<^verbatim>\<open>try\<close> block\<close>

text \<open>
  A completion event of the tracked job reaches \<open>collect\<close>; every other text frame
  at most writes a log line, and never reaches \<^verbatim>\<open>resolve\<close>.
\<close>

lemma completion_for_Message:
  "completion_for e J (Message data isBinary) \<longleftrightarrow>
   \<not> isBinary \<and> (\<exists>m d. JSON_parse e data = Some (JObj m) \<and>
      map_of m ''type'' = Some (JStr ''executing'') \<and> map_of m ''data'' = Some (JObj d) \<and>
      \<not> truthy (map_of d ''node'') \<and> map_of d ''prompt_id'' = Some (JStr J))"
  unfolding completion_for_def
  by (auto simp: object_of_Some split: option.splits) (simp_all add: object_of_def)

lemma try_block_completion:
  assumes "completion_for e (promptId s) (Message data False)"
  shows "try_block c e data s =
     (case collect c e (logger_info (Done_executing_prompt (Some (JStr (promptId s)))) s) of
        (Inl err, s2) \<Rightarrow> (Inl err, s2)
      | (Inr u, s2) \<Rightarrow> (Inr True, ws_off c s2))"
proof -
  from assms obtain m d where
    "JSON_parse e data = Some (JObj m)" "map_of m ''type'' = Some (JStr ''executing'')"
    "map_of m ''data'' = Some (JObj d)" "\<not> truthy (map_of d ''node'')"
    "map_of d ''prompt_id'' = Some (JStr (promptId s))"
    unfolding completion_for_Message by blast
  then show ?thesis
    by (simp add: try_block_def done_branch_def logger_info_def)
qed

lemma done_branch_other:
  assumes "md \<noteq> None" "md \<noteq> Some JNull"
    and "\<not> (\<exists>d. md = Some (JObj d) \<and> map_of d ''prompt_id'' = Some (JStr (promptId s)))"
  shows "\<exists>r l. done_branch c e md s = (r, s\<lparr>log := l\<rparr>) \<and> r \<noteq> Inr True"
proof -
  have triv: "\<And>r :: error + bool. r \<noteq> Inr True \<Longrightarrow>
      \<exists>r' l. (r, s) = (r', s\<lparr>log := l\<rparr>) \<and> r' \<noteq> Inr True"
  proof -
    fix r :: "error + bool" assume "r \<noteq> Inr True"
    moreover have "s = s\<lparr>log := log s\<rparr>" by simp
    ultimately show "\<exists>r' l. (r, s) = (r', s\<lparr>log := l\<rparr>) \<and> r' \<noteq> Inr True" by blast
  qed
  from assms(1) obtain v where v: "md = Some v" by auto
  show ?thesis
  proof (cases v)
    case JNull
    with v assms show ?thesis by simp
  next
    case (JObj d)
    with v assms(3) have ne: "map_of d ''prompt_id'' \<noteq> Some (JStr (promptId s))" by simp
    show ?thesis
    proof (cases "case map_of d ''prompt_id'' of None \<Rightarrow> True | Some v \<Rightarrow> template_ok v")
      case True
      with v JObj ne show ?thesis
        by (simp add: done_branch_def logger_info_def) blast
    next
      case False
      with v JObj have "done_branch c e md s = (Inl TypeError, s)" by (simp add: done_branch_def)
      then show ?thesis using triv[of "Inl TypeError"] by simp
    qed
  qed (use v in \<open>simp_all add: done_branch_def logger_info_def\<close>, blast+)
qed

lemma try_block_other:
  assumes "\<not> completion_for e (promptId s) (Message data False)"
  shows "\<exists>r l. try_block c e data s = (r, s\<lparr>log := l\<rparr>) \<and> r \<noteq> Inr True"
proof -
  have triv: "\<And>r. try_block c e data s = (r, s) \<Longrightarrow> r \<noteq> Inr True \<Longrightarrow>
      \<exists>r l. try_block c e data s = (r, s\<lparr>log := l\<rparr>) \<and> r \<noteq> Inr True"
  proof -
    fix r assume "try_block c e data s = (r, s)" "r \<noteq> Inr True"
    moreover have "s = s\<lparr>log := log s\<rparr>" by simp
    ultimately show "\<exists>r l. try_block c e data s = (r, s\<lparr>log := l\<rparr>) \<and> r \<noteq> Inr True"
      by metis
  qed
  show ?thesis
  proof (cases "JSON_parse e data")
    case None
    then show ?thesis by (intro triv[of "Inl SyntaxError"]) (simp_all add: try_block_def)
  next
    case (Some message)
    show ?thesis
    proof (cases "\<exists>m. message = JObj m \<and> map_of m ''type'' = Some (JStr ''executing'')")
      case False
      then have "try_block c e data s = (Inl TypeError, s) \<or> try_block c e data s = (Inr False, s)"
        using Some by (cases message) (simp_all add: try_block_def)
      then show ?thesis using triv by auto
    next
      case True
      then obtain m where m: "message = JObj m" "map_of m ''type'' = Some (JStr ''executing'')"
        by blast
      let ?md = "map_of m ''data''"
      show ?thesis
      proof (cases "?md = None \<or> ?md = Some JNull")
        case True
        then have "try_block c e data s = (Inl TypeError, s)"
          using Some m by (auto simp: try_block_def)
        then show ?thesis using triv by auto
      next
        case False
        then obtain node where node: "read_prop ?md ''node'' = Inr node"
          by (cases ?md; cases "the ?md") auto
        show ?thesis
        proof (cases "truthy node")
          case True
          then have "try_block c e data s = (Inr False, s)"
            using Some m node by (simp add: try_block_def)
          then show ?thesis using triv by auto
        next
          case falsy: False
          then have tb: "try_block c e data s = done_branch c e ?md s"
            using Some m node by (simp add: try_block_def)
          have "\<not> (\<exists>d. ?md = Some (JObj d) \<and> map_of d ''prompt_id'' = Some (JStr (promptId s)))"
          proof
            assume "\<exists>d. ?md = Some (JObj d) \<and> map_of d ''prompt_id'' = Some (JStr (promptId s))"
            then obtain d where d: "?md = Some (JObj d)"
              "map_of d ''prompt_id'' = Some (JStr (promptId s))" by blast
            with node falsy have "\<not> truthy (map_of d ''node'')" by simp
            with d m Some have "completion_for e (promptId s) (Message data False)"
              unfolding completion_for_Message by simp
            with assms show False by simp
          qed
          with False done_branch_other[of ?md s c e] tb show ?thesis by simp
        qed
      qed
    qed
  qed
qed

subsection \<open>What one event can change\<close>

lemma emit_completion:
  assumes "completion_for e (promptId s) ev" "registered s" "\<not> closed s"
  shows "emit c e ev s =
     (case collect c e (logger_info (Done_executing_prompt (Some (JStr (promptId s)))) s) of
        (Inl err, s2) \<Rightarrow> reject err s2
      | (Inr u, s2) \<Rightarrow> resolve (outputImages s2) (ws_off c s2))"
proof -
  from assms(1) obtain data where ev: "ev = Message data False"
    by (cases ev) (auto simp: completion_for_def)
  with assms show ?thesis
    by (simp add: onMessage_def try_block_completion ws_off_def split: prod.splits sum.splits option.splits)
qed

lemma emit_other:
  assumes "\<not> completion_for e (promptId s) ev"
  shows "\<exists>l cl p. emit c e ev s = s\<lparr>log := l, closed := cl, promise := p\<rparr> \<and>
     (p = promise s \<or> promise s = Pending \<and> (\<exists>err. p = Rejected err))"
proof -
  have same: "\<And>t. t = s \<Longrightarrow> \<exists>l cl p. t = s\<lparr>log := l, closed := cl, promise := p\<rparr> \<and>
     (p = promise s \<or> promise s = Pending \<and> (\<exists>err. p = Rejected err))"
  proof -
    fix t assume "t = s"
    then have "t = s\<lparr>log := log s, closed := closed s, promise := promise s\<rparr>" by simp
    then show "\<exists>l cl p. t = s\<lparr>log := l, closed := cl, promise := p\<rparr> \<and>
     (p = promise s \<or> promise s = Pending \<and> (\<exists>err. p = Rejected err))" by blast
  qed
  show ?thesis
  proof (cases ev)
    case Close
    show ?thesis
    proof (cases "closed s")
      case True
      with Close show ?thesis by (simp add: same)
    next
      case False
      with Close have "emit c e ev s =
        s\<lparr>log := log s @ [Connection_closed], closed := True, promise := promise s\<rparr>"
        by (simp add: logger_info_def)
      then show ?thesis by blast
    qed
  next
    case (Message data isBinary)
    show ?thesis
    proof (cases "isBinary \<or> closed s \<or> \<not> registered s")
      case True
      with Message have "emit c e ev s = s" by (auto simp: onMessage_def)
      then show ?thesis by (rule same)
    next
      case False
      with Message assms have "\<not> completion_for e (promptId s) (Message data False)" by simp
      from try_block_other[OF this, of c] obtain r l where
        tb: "try_block c e data s = (r, s\<lparr>log := l\<rparr>)" "r \<noteq> Inr True" by blast
      show ?thesis
      proof (cases r)
        case (Inl err)
        show ?thesis
        proof (cases "promise s = Pending")
          case True
          with Inl tb Message False have
            "emit c e ev s = s\<lparr>log := l, closed := closed s, promise := Rejected err\<rparr>"
            by (simp add: onMessage_def reject_def)
          with True show ?thesis by blast
        next
          case np: False
          with Inl tb Message False have
            "emit c e ev s = s\<lparr>log := l, closed := closed s, promise := promise s\<rparr>"
            by (simp add: onMessage_def reject_def)
          then show ?thesis by blast
        qed
      next
        case (Inr b)
        with tb have "b = False" by simp
        with Inr tb Message False have
          "emit c e ev s = s\<lparr>log := l, closed := closed s, promise := promise s\<rparr>"
          by (simp add: onMessage_def)
        then show ?thesis by blast
      qed
    qed
  qed
qed

lemma resolve_frame: "\<exists>p. resolve r s = s\<lparr>promise := p\<rparr> \<and> (promise s \<noteq> Pending \<longrightarrow> p = promise s)"
proof (cases "promise s = Pending")
  case True
  then show ?thesis by (simp add: resolve_def) blast
next
  case False
  then have "resolve r s = s\<lparr>promise := promise s\<rparr>" by (simp add: resolve_def)
  with False show ?thesis by blast
qed

lemma emit_frame:
  "\<exists>rs l cl rg oi p. emit c e ev s =
     s\<lparr>requests := requests s @ rs, log := l, closed := cl, registered := rg,
       outputImages := oi, promise := p\<rparr> \<and> (promise s \<noteq> Pending \<longrightarrow> p = promise s)"
proof (cases "completion_for e (promptId s) ev \<and> registered s \<and> \<not> closed s")
  case False
  have "\<exists>l cl p. emit c e ev s = s\<lparr>log := l, closed := cl, promise := p\<rparr> \<and>
     (p = promise s \<or> promise s = Pending \<and> (\<exists>err. p = Rejected err))"
  proof (cases "completion_for e (promptId s) ev")
    case nc: False
    then show ?thesis by (rule emit_other)
  next
    case True
    then obtain data where ev: "ev = Message data False"
      by (cases ev) (auto simp: completion_for_def)
    with True False have "emit c e ev s = s" by auto
    then have "emit c e ev s = s\<lparr>log := log s, closed := closed s, promise := promise s\<rparr>" by simp
    then show ?thesis by blast
  qed
  then obtain l cl p where
    *: "emit c e ev s = s\<lparr>log := l, closed := cl, promise := p\<rparr>"
       "p = promise s \<or> promise s = Pending \<and> (\<exists>err. p = Rejected err)" by blast
  then have "emit c e ev s = s\<lparr>requests := requests s @ [], log := l, closed := cl,
      registered := registered s, outputImages := outputImages s, promise := p\<rparr>" by simp
  with *(2) show ?thesis by blast
next
  case True
  let ?s1 = "logger_info (Done_executing_prompt (Some (JStr (promptId s)))) s"
  obtain res s2 where col: "collect c e ?s1 = (res, s2)" by (cases "collect c e ?s1")
  from collect_trace[OF col] obtain rs oi where
    s2: "s2 = ?s1\<lparr>requests := requests ?s1 @ getHistory_request c (promptId ?s1) # rs,
                         outputImages := oi\<rparr>" by blast
  show ?thesis
  proof (cases res)
    case (Inl err)
    with True col have em: "emit c e ev s = reject err s2" by (simp add: emit_completion)
    show ?thesis
    proof (cases "promise s = Pending")
      case pend: True
      with em s2 have "emit c e ev s = s\<lparr>requests := requests s @ getHistory_request c (promptId s) # rs,
        log := log ?s1, closed := closed s, registered := registered s,
        outputImages := oi, promise := Rejected err\<rparr>"
        by (simp add: reject_def logger_info_def)
      with pend show ?thesis by blast
    next
      case False
      with em s2 have "emit c e ev s = s\<lparr>requests := requests s @ getHistory_request c (promptId s) # rs,
        log := log ?s1, closed := closed s, registered := registered s,
        outputImages := oi, promise := promise s\<rparr>"
        by (simp add: reject_def logger_info_def)
      then show ?thesis by blast
    qed
  next
    case (Inr u)
    with True col have em: "emit c e ev s = resolve (outputImages s2) (ws_off c s2)"
      by (simp add: emit_completion)
    from resolve_frame[of "outputImages s2" "ws_off c s2"] obtain p where
      p: "resolve (outputImages s2) (ws_off c s2) = (ws_off c s2)\<lparr>promise := p\<rparr>"
         "promise (ws_off c s2) \<noteq> Pending \<longrightarrow> p = promise (ws_off c s2)" by blast
    have pr: "promise (ws_off c s2) = promise s"
      using s2 by (simp add: ws_off_def logger_info_def split: option.splits)
    have "emit c e ev s = s\<lparr>requests := requests s @ getHistory_request c (promptId s) # rs,
        log := log ?s1, closed := closed s, registered := registered (ws_off c s2),
        outputImages := oi, promise := p\<rparr>"
      using em p(1) s2 by (simp add: ws_off_def logger_info_def split: option.splits)
    with p(2) pr show ?thesis by metis
  qed
qed

lemma emit_promptId: "promptId (emit c e ev s) = promptId s"
  using emit_frame[of c e ev s] by auto

lemma emit_settled: "promise s \<noteq> Pending \<Longrightarrow> promise (emit c e ev s) = promise s"
  using emit_frame[of c e ev s] by auto

lemma deliver_promptId: "promptId (deliver c e evs s) = promptId s"
  by (induction evs arbitrary: s) (simp_all add: emit_promptId)

lemma deliver_settled: "promise s \<noteq> Pending \<Longrightarrow> promise (deliver c e evs s) = promise s"
  by (induction evs arbitrary: s) (simp_all add: emit_settled)

lemma deliver_append: "deliver c e (xs @ ys) s = deliver c e ys (deliver c e xs s)"
  by (induction xs arbitrary: s) simp_all

subsection \<open>Pending and resolved runs\<close>

lemma emit_quiet:
  assumes "\<not> (completion_for e (promptId s) ev \<and> registered s \<and> \<not> closed s)"
  shows "\<exists>l cl p. emit c e ev s = s\<lparr>log := l, closed := cl, promise := p\<rparr> \<and>
     (p = promise s \<or> promise s = Pending \<and> (\<exists>err. p = Rejected err))"
proof (cases "completion_for e (promptId s) ev")
  case False
  then show ?thesis by (rule emit_other)
next
  case True
  then obtain data where ev: "ev = Message data False"
    by (cases ev) (auto simp: completion_for_def)
  with True assms have "emit c e ev s = s" by auto
  then have "emit c e ev s = s\<lparr>log := log s, closed := closed s, promise := promise s\<rparr>" by simp
  then show ?thesis by blast
qed

lemma collect_promise: "collect c e s = (res, s2) \<Longrightarrow> promise s2 = promise s"
  using collect_trace[of c e s res s2] by auto

lemma emit_loud:
  assumes "completion_for e (promptId s) ev" "registered s" "\<not> closed s" "promise s = Pending"
  shows "\<exists>res s2. collect c e (logger_info (Done_executing_prompt (Some (JStr (promptId s)))) s)
            = (res, s2) \<and>
     emit c e ev s =
       (case res of
          Inl err \<Rightarrow> s2\<lparr>promise := Rejected err\<rparr>
        | Inr u \<Rightarrow> (ws_off c s2)\<lparr>promise := Resolved (outputImages s2)\<rparr>)"
proof -
  let ?s1 = "logger_info (Done_executing_prompt (Some (JStr (promptId s)))) s"
  obtain res s2 where col: "collect c e ?s1 = (res, s2)" by (cases "collect c e ?s1")
  from collect_promise[OF col] assms(4) have p: "promise s2 = Pending"
    by (simp add: logger_info_def)
  then have p': "promise (ws_off c s2) = Pending" by (simp add: ws_off_def split: option.splits)
  have o: "outputImages (ws_off c s2) = outputImages s2" by (simp add: ws_off_def split: option.splits)
  show ?thesis
    using emit_completion[OF assms(1-3), of c] col p p' o
    by (cases res) (simp_all add: reject_def resolve_def)
qed

lemma emit_pending:
  assumes "promise (emit c e ev s) = Pending"
  shows "promise s = Pending \<and> requests (emit c e ev s) = requests s \<and>
    outputImages (emit c e ev s) = outputImages s \<and> registered (emit c e ev s) = registered s"
proof -
  have pend: "promise s = Pending"
    using assms emit_settled[of s c e ev] by metis
  have quiet: "\<not> (completion_for e (promptId s) ev \<and> registered s \<and> \<not> closed s)"
  proof
    assume "completion_for e (promptId s) ev \<and> registered s \<and> \<not> closed s"
    with pend emit_loud[of e s ev c] obtain res s2 where
      "collect c e (logger_info (Done_executing_prompt (Some (JStr (promptId s)))) s) = (res, s2)"
      "emit c e ev s =
       (case res of
          Inl err \<Rightarrow> s2\<lparr>promise := Rejected err\<rparr>
        | Inr u \<Rightarrow> (ws_off c s2)\<lparr>promise := Resolved (outputImages s2)\<rparr>)"
      by blast
    with assms show False by (cases res) auto
  qed
  from emit_quiet[OF quiet, of c] pend show ?thesis by auto
qed

lemma emit_resolved:
  assumes "promise s = Pending" "promise (emit c e ev s) = Resolved r"
  shows "completion_for e (promptId s) ev \<and> registered s \<and> \<not> closed s \<and>
    (\<exists>u s2. collect c e (logger_info (Done_executing_prompt (Some (JStr (promptId s)))) s)
        = (Inr u, s2) \<and> r = outputImages s2)"
proof -
  have loud: "completion_for e (promptId s) ev \<and> registered s \<and> \<not> closed s"
  proof (rule ccontr)
    assume "\<not> ?thesis"
    from emit_quiet[OF this, of c] assms show False by auto
  qed
  with assms(1) emit_loud[of e s ev c] obtain res s2 where
    col: "collect c e (logger_info (Done_executing_prompt (Some (JStr (promptId s)))) s) = (res, s2)"
    and "emit c e ev s =
       (case res of
          Inl err \<Rightarrow> s2\<lparr>promise := Rejected err\<rparr>
        | Inr u \<Rightarrow> (ws_off c s2)\<lparr>promise := Resolved (outputImages s2)\<rparr>)"
    by blast
  with assms(2) obtain u where "res = Inr u" "r = outputImages s2" by (cases res) auto
  with col loud show ?thesis by blast
qed

lemma deliver_pending:
  "promise (deliver c e evs s) = Pending \<Longrightarrow>
   promise s = Pending \<and> requests (deliver c e evs s) = requests s \<and>
   outputImages (deliver c e evs s) = outputImages s \<and>
   registered (deliver c e evs s) = registered s"
proof (induction evs arbitrary: s)
  case Nil
  then show ?case by simp
next
  case (Cons ev evs)
  from Cons.IH[of "emit c e ev s"] Cons.prems
  have *: "promise (emit c e ev s) = Pending"
    "requests (deliver c e (ev # evs) s) = requests (emit c e ev s)"
    "outputImages (deliver c e (ev # evs) s) = outputImages (emit c e ev s)"
    "registered (deliver c e (ev # evs) s) = registered (emit c e ev s)"
    by simp_all
  from emit_pending[OF *(1)] * show ?case by simp
qed

lemma deliver_resolved:
  "promise s = Pending \<Longrightarrow> promise (deliver c e evs s) = Resolved r \<Longrightarrow>
   \<exists>pre ev post. evs = pre @ ev # post \<and> promise (deliver c e pre s) = Pending \<and>
     promise (emit c e ev (deliver c e pre s)) = Resolved r"
proof (induction evs arbitrary: s)
  case Nil
  then show ?case by simp
next
  case (Cons ev evs)
  show ?case
  proof (cases "promise (emit c e ev s) = Pending")
    case True
    from Cons.IH[OF True] Cons.prems(2) obtain pre ev' post where
      "evs = pre @ ev' # post" "promise (deliver c e pre (emit c e ev s)) = Pending"
      "promise (emit c e ev' (deliver c e pre (emit c e ev s))) = Resolved r"
      by auto
    then have "ev # evs = (ev # pre) @ ev' # post \<and> promise (deliver c e (ev # pre) s) = Pending \<and>
      promise (emit c e ev' (deliver c e (ev # pre) s)) = Resolved r" by simp
    then show ?thesis by blast
  next
    case False
    with Cons.prems(2) deliver_settled[OF False, of c e evs]
    have "promise (emit c e ev s) = Resolved r" by simp
    then have "ev # evs = [] @ ev # evs \<and> promise (deliver c e [] s) = Pending \<and>
      promise (emit c e ev (deliver c e [] s)) = Resolved r" using Cons.prems(1) by simp
    then show ?thesis by blast
  qed
qed

lemma deliver_irrelevant:
  "list_all (irrelevant e (promptId s)) evs \<Longrightarrow> (deliver c e evs s)\<lparr>log := log s\<rparr> = s"
proof (induction evs arbitrary: s)
  case Nil
  then show ?case by simp
next
  case (Cons ev evs)
  then have ev: "irrelevant e (promptId s) ev" and evs: "list_all (irrelevant e (promptId s)) evs"
    by simp_all
  let ?s1 = "emit c e ev s"
  from irrelevant_emit[OF ev, of c] have s1: "?s1\<lparr>log := log s\<rparr> = s" .
  then have "promptId ?s1 = promptId s" by (metis emit_promptId)
  with evs Cons.IH[of ?s1] have "(deliver c e evs ?s1)\<lparr>log := log ?s1\<rparr> = ?s1" by simp
  then have "((deliver c e evs ?s1)\<lparr>log := log ?s1\<rparr>)\<lparr>log := log s\<rparr> = ?s1\<lparr>log := log s\<rparr>"
    by simp
  with s1 show ?case by simp
qed

lemma deliver_closed: "closed s \<Longrightarrow> deliver c e evs s = s"
proof (induction evs)
  case Nil
  then show ?case by simp
next
  case (Cons ev evs)
  then show ?case by (cases ev) simp_all
qed

subsection \<open>The concrete run\<close>

lemma demo_parse_simps:
  "demo_parse frame_progress = Some (JObj [(''type'', JStr ''executing''),
      (''data'', JObj [(''node'', JStr ''3''), (''prompt_id'', JStr ''abc123'')])])"
  "demo_parse frame_done = Some (JObj [(''type'', JStr ''executing''),
      (''data'', JObj [(''node'', JNull), (''prompt_id'', JStr ''abc123'')])])"
  "demo_parse frame_other_done = Some (JObj [(''type'', JStr ''executing''),
      (''data'', JObj [(''node'', JNull), (''prompt_id'', JStr ''zzz'')])])"
  "demo_parse frame_status = Some (JObj [(''type'', JStr ''status''), (''data'', JObj [])])"
  "demo_parse frame_garbage = None"
  by (simp_all add: demo_parse_def frame_progress_def frame_done_def frame_other_done_def
      frame_status_def frame_garbage_def)

lemma demo_client_simps:
  "ws demo_client = Some \<lparr>url = ''ws://127.0.0.1:8188/ws?clientId=c1''\<rparr>"
  "base_url demo_client = ''http://127.0.0.1:8188''"
  "clientId demo_client = ''c1''"
  by (simp_all add: demo_client_def new_ComfyUIClient_def base_url_def)

lemma demo_env_simps:
  "JSON_parse demo_env = demo_parse"
  "post_prompt demo_env before r = Inr \<lparr>prompt_id = ''abc123''\<rparr>"
  "get_history demo_env before r = Inr demo_history"
  "get_view demo_env before = demo_view"
  "JSON_parse flaky_env = demo_parse"
  "get_history flaky_env before r = Inr demo_history"
  "get_view flaky_env before r =
     (if r = getImage_request demo_client img_b then Inl ''404'' else demo_view r)"
  by (simp_all add: demo_env_def flaky_env_def)

lemma demo_requests:
  "getImage_request demo_client img_a \<noteq> getImage_request demo_client img_b"
  by (simp add: getImage_request_def img_a_def img_b_def)

lemma demo_view_simps:
  "demo_view (getImage_request demo_client img_a) = Inr [137, 80, 78, 71]"
  "demo_view (getImage_request demo_client img_b) = Inr [66]"
  using demo_requests by (auto simp: demo_view_def)

lemma demo_start: "getImages demo_client demo_env (JObj []) init = listening"
  by (simp add: getImages_def queuePrompt_def axios_def demo_client_simps demo_env_simps
      ws_on_def init_def listening_def)

lemma listening_simps:
  "requests listening = [queuePrompt_request demo_client (JObj [])]"
  "log listening = []" "\<not> closed listening" "registered listening"
  "promptId listening = ''abc123''" "outputImages listening = Map.empty"
  "promise listening = Pending"
  by (simp_all add: listening_def)

lemma demo_collect:
  "collect demo_client demo_env
     (logger_info (Done_executing_prompt (Some (JStr ''abc123''))) listening) =
   (Inr (), \<lparr> requests = [queuePrompt_request demo_client (JObj []),
                 getHistory_request demo_client ''abc123'',
                 getImage_request demo_client img_a, getImage_request demo_client img_b],
      log = [Done_executing_prompt (Some (JStr ''abc123''))],
      closed = False, registered = True, promptId = ''abc123'',
      outputImages = [''9'' \<mapsto> [\<lparr>buffer = [137, 80, 78, 71], image = img_a\<rparr>,
                                 \<lparr>buffer = [66], image = img_b\<rparr>]],
      promise = Pending \<rparr>)"
  by (simp add: collect_def getHistory_eq getImage_eq demo_env_simps demo_history_def
      demo_view_simps logger_info_def listening_def)

lemma demo_completion: "completion_for demo_env ''abc123'' (Message frame_done False)"
  by (simp add: completion_for_Message demo_env_simps demo_parse_simps)

lemma demo_done:
  "emit demo_client demo_env (Message frame_done False) listening =
   \<lparr> requests = [queuePrompt_request demo_client (JObj []),
                 getHistory_request demo_client ''abc123'',
                 getImage_request demo_client img_a, getImage_request demo_client img_b],
      log = [Done_executing_prompt (Some (JStr ''abc123''))],
      closed = False, registered = False, promptId = ''abc123'',
      outputImages = [''9'' \<mapsto> [\<lparr>buffer = [137, 80, 78, 71], image = img_a\<rparr>,
                                 \<lparr>buffer = [66], image = img_b\<rparr>]],
      promise = Resolved [''9'' \<mapsto> [\<lparr>buffer = [137, 80, 78, 71], image = img_a\<rparr>,
                                 \<lparr>buffer = [66], image = img_b\<rparr>]] \<rparr>"
  using emit_completion[of demo_env listening "Message frame_done False" demo_client]
  by (simp add: listening_simps demo_completion demo_collect resolve_def ws_off_def demo_client_simps)

subsection \<open>Nothing reads the log\<close>

lemma log_outermost:
  "s\<lparr>log := l, requests := r\<rparr> = s\<lparr>requests := r, log := l\<rparr>"
  "s\<lparr>log := l, outputImages := oi\<rparr> = s\<lparr>outputImages := oi, log := l\<rparr>"
  "s\<lparr>log := l, registered := b\<rparr> = s\<lparr>registered := b, log := l\<rparr>"
  "s\<lparr>log := l, promise := p\<rparr> = s\<lparr>promise := p, log := l\<rparr>"
  by (cases s; simp)+

lemma fetch_images_log:
  "fetch_images c e imgs acc (s\<lparr>log := l\<rparr>) =
     apsnd (\<lambda>t. t\<lparr>log := l\<rparr>) (fetch_images c e imgs acc s)"
  by (induction imgs arbitrary: acc s) (simp_all add: getImage_eq log_outermost split: sum.splits)

lemma populate_log:
  "populate c e outs ks (s\<lparr>log := l\<rparr>) = apsnd (\<lambda>t. t\<lparr>log := l\<rparr>) (populate c e outs ks s)"
proof (induction ks arbitrary: s)
  case Nil
  then show ?case by simp
next
  case (Cons nodeId rest)
  show ?case
  proof (cases "map_of outs nodeId")
    case None
    then show ?thesis by simp
  next
    case (Some nodeOutput)
    show ?thesis
    proof (cases "images nodeOutput")
      case None
      with Some Cons.IH show ?thesis by simp
    next
      case imgs: (Some imgs)
      obtain r1 s1 where f: "fetch_images c e imgs [] s = (r1, s1)"
        by (cases "fetch_images c e imgs [] s")
      then have f': "fetch_images c e imgs [] (s\<lparr>log := l\<rparr>) = (r1, s1\<lparr>log := l\<rparr>)"
        by (simp add: fetch_images_log)
      show ?thesis
      proof (cases r1)
        case (Inl err)
        with Some imgs f f' show ?thesis by simp
      next
        case (Inr imagesOutput)
        have "populate c e outs rest
            ((s1\<lparr>outputImages := (outputImages s1)(nodeId \<mapsto> imagesOutput)\<rparr>)\<lparr>log := l\<rparr>) =
          apsnd (\<lambda>t. t\<lparr>log := l\<rparr>) (populate c e outs rest
            (s1\<lparr>outputImages := (outputImages s1)(nodeId \<mapsto> imagesOutput)\<rparr>))"
          by (rule Cons.IH)
        with Some imgs f f' Inr show ?thesis by (simp add: log_outermost)
      qed
    qed
  qed
qed

lemma collect_log:
  "collect c e (s\<lparr>log := l\<rparr>) = apsnd (\<lambda>t. t\<lparr>log := l\<rparr>) (collect c e s)"
proof (cases "get_history e (requests s) (getHistory_request c (promptId s))")
  case (Inl m)
  then show ?thesis by (simp add: collect_def getHistory_eq)
next
  case (Inr hr)
  show ?thesis
  proof (cases "hr (promptId s)")
    case None
    with Inr show ?thesis by (simp add: collect_def getHistory_eq)
  next
    case (Some h)
    have "populate c e (outputs h) (map fst (outputs h))
        ((s\<lparr>requests := requests s @ [getHistory_request c (promptId s)]\<rparr>)\<lparr>log := l\<rparr>) =
      apsnd (\<lambda>t. t\<lparr>log := l\<rparr>) (populate c e (outputs h) (map fst (outputs h))
        (s\<lparr>requests := requests s @ [getHistory_request c (promptId s)]\<rparr>))"
      by (rule populate_log)
    with Inr Some show ?thesis by (simp add: collect_def getHistory_eq log_outermost)
  qed
qed

lemma done_branch_log:
  "apsnd (\<lambda>t. t\<lparr>log := []\<rparr>) (done_branch c e md (s\<lparr>log := l\<rparr>)) =
   apsnd (\<lambda>t. t\<lparr>log := []\<rparr>) (done_branch c e md s)"
proof (cases "read_prop md ''prompt_id''")
  case (Inl err)
  then show ?thesis by (simp add: done_branch_def)
next
  case (Inr donePromptId)
  show ?thesis
  proof (cases "case donePromptId of None \<Rightarrow> True | Some v \<Rightarrow> template_ok v")
    case False
    with Inr show ?thesis by (simp add: done_branch_def)
  next
    case ok: True
    show ?thesis
    proof (cases "donePromptId = Some (JStr (promptId s))")
      case False
      with Inr ok show ?thesis by (simp add: done_branch_def logger_info_def)
    next
      case True
      obtain res s2 where col: "collect c e s = (res, s2)" by (cases "collect c e s")
      have "collect c e (s\<lparr>log := l @ [Done_executing_prompt donePromptId]\<rparr>) =
          (res, s2\<lparr>log := l @ [Done_executing_prompt donePromptId]\<rparr>)"
        "collect c e (s\<lparr>log := log s @ [Done_executing_prompt donePromptId]\<rparr>) =
          (res, s2\<lparr>log := log s @ [Done_executing_prompt donePromptId]\<rparr>)"
        using col by (simp_all add: collect_log)
      with Inr ok True show ?thesis
        by (cases res) (simp_all add: done_branch_def logger_info_def ws_off_def split: option.splits)
    qed
  qed
qed

lemma try_block_log:
  "apsnd (\<lambda>t. t\<lparr>log := []\<rparr>) (try_block c e data (s\<lparr>log := l\<rparr>)) =
   apsnd (\<lambda>t. t\<lparr>log := []\<rparr>) (try_block c e data s)"
  by (simp add: try_block_def done_branch_log split: option.splits sum.splits)

lemma reject_log: "(reject err t)\<lparr>log := l\<rparr> = reject err (t\<lparr>log := l\<rparr>)"
  by (simp add: reject_def log_outermost)

lemma resolve_log: "(resolve r t)\<lparr>log := l\<rparr> = resolve r (t\<lparr>log := l\<rparr>)"
  by (simp add: resolve_def log_outermost)

lemma onMessage_log:
  "(onMessage c e data isBinary (s\<lparr>log := l\<rparr>))\<lparr>log := []\<rparr> =
   (onMessage c e data isBinary s)\<lparr>log := []\<rparr>"
proof (cases isBinary)
  case True
  then show ?thesis by (simp add: onMessage_def)
next
  case False
  obtain r t where t: "try_block c e data s = (r, t)" by (cases "try_block c e data s")
  obtain r' t' where t': "try_block c e data (s\<lparr>log := l\<rparr>) = (r', t')"
    by (cases "try_block c e data (s\<lparr>log := l\<rparr>)")
  from try_block_log[where c=c and e=e and data=data and s=s and l=l] t t' have eq: "r' = r" "t'\<lparr>log := []\<rparr> = t\<lparr>log := []\<rparr>"
    by simp_all
  then have fields: "promise t' = promise t" "outputImages t' = outputImages t"
    by (metis state.select_convs(7) state.surjective state.update_convs(2),
        metis state.select_convs(6) state.surjective state.update_convs(2))
  have "(reject err t')\<lparr>log := []\<rparr> = (reject err t)\<lparr>log := []\<rparr>" for err
    using eq(2) by (simp add: reject_log)
  moreover have "(resolve (outputImages t') t')\<lparr>log := []\<rparr>
      = (resolve (outputImages t) t)\<lparr>log := []\<rparr>"
    using eq(2) fields by (simp add: resolve_log)
  ultimately have "(case r of Inl err \<Rightarrow> reject err t' | Inr True \<Rightarrow> resolve (outputImages t') t'
         | Inr False \<Rightarrow> t')\<lparr>log := []\<rparr> =
        (case r of Inl err \<Rightarrow> reject err t | Inr True \<Rightarrow> resolve (outputImages t) t
         | Inr False \<Rightarrow> t)\<lparr>log := []\<rparr>"
    using eq(2) by (simp split: sum.splits bool.splits)
  with False t t' eq(1) show ?thesis by (simp add: onMessage_def)
qed

lemma emit_log:
  "(emit c e ev (s\<lparr>log := l\<rparr>))\<lparr>log := []\<rparr> = (emit c e ev s)\<lparr>log := []\<rparr>"
  by (cases ev) (simp_all add: onMessage_log logger_info_def)

lemma emit_same_but_log:
  assumes "a\<lparr>log := []\<rparr> = b\<lparr>log := []\<rparr>"
  shows "(emit c e ev a)\<lparr>log := []\<rparr> = (emit c e ev b)\<lparr>log := []\<rparr>"
proof -
  have "(emit c e ev (a\<lparr>log := []\<rparr>))\<lparr>log := []\<rparr> = (emit c e ev a)\<lparr>log := []\<rparr>"
    "(emit c e ev (b\<lparr>log := []\<rparr>))\<lparr>log := []\<rparr> = (emit c e ev b)\<lparr>log := []\<rparr>"
    by (rule emit_log)+
  with assms show ?thesis by simp
qed

lemma deliver_same_but_log:
  "a\<lparr>log := []\<rparr> = b\<lparr>log := []\<rparr> \<Longrightarrow>
   (deliver c e evs a)\<lparr>log := []\<rparr> = (deliver c e evs b)\<lparr>log := []\<rparr>"
proof (induction evs arbitrary: a b)
  case Nil
  then show ?case by simp
next
  case (Cons ev evs)
  from Cons.IH[OF emit_same_but_log[OF Cons.prems, of c e ev]] show ?case by simp
qed

subsection \<open>Runs that resolve, and a run that fails\<close>

lemma resolved_needs_completion:
  assumes "promise s = Pending" and "promise (deliver c e evs s) = Resolved r"
  shows "\<exists>ev \<in> set evs. completion_for e (promptId s) ev"
proof -
  from deliver_resolved[OF assms] obtain pre ev post where
    evs: "evs = pre @ ev # post" and p: "promise (deliver c e pre s) = Pending"
    and r: "promise (emit c e ev (deliver c e pre s)) = Resolved r" by blast
  from emit_resolved[OF p r] have "completion_for e (promptId s) ev"
    by (simp add: deliver_promptId)
  with evs show ?thesis by auto
qed

lemma flaky_collect:
  "collect demo_client flaky_env
     (logger_info (Done_executing_prompt (Some (JStr ''abc123''))) listening) =
   (Inl (AxiosError ''404'' (getImage_request demo_client img_b)),
    \<lparr> requests = [queuePrompt_request demo_client (JObj []),
                 getHistory_request demo_client ''abc123'',
                 getImage_request demo_client img_a, getImage_request demo_client img_b],
      log = [Done_executing_prompt (Some (JStr ''abc123''))],
      closed = False, registered = True, promptId = ''abc123'',
      outputImages = Map.empty, promise = Pending \<rparr>)"
  using demo_requests
  by (simp add: collect_def getHistory_eq getImage_eq demo_env_simps demo_history_def
      demo_view_simps logger_info_def listening_def)

lemma flaky_completion: "completion_for flaky_env ''abc123'' (Message frame_done False)"
  by (simp add: completion_for_Message demo_env_simps demo_parse_simps)

lemma flaky_done:
  "emit demo_client flaky_env (Message frame_done False) listening =
   \<lparr> requests = [queuePrompt_request demo_client (JObj []),
                 getHistory_request demo_client ''abc123'',
                 getImage_request demo_client img_a, getImage_request demo_client img_b],
      log = [Done_executing_prompt (Some (JStr ''abc123''))],
      closed = False, registered = True, promptId = ''abc123'',
      outputImages = Map.empty,
      promise = Rejected (AxiosError ''404'' (getImage_request demo_client img_b)) \<rparr>"
  using emit_completion[of flaky_env listening "Message frame_done False" demo_client]
  by (simp add: listening_simps flaky_completion flaky_collect reject_def)

lemma resolved_run:
  assumes "promise (deliver c e evs (getImages c e prompt s0)) = Resolved r"
  shows "\<exists>q hr h s s'.
     post_prompt e (requests s0) (queuePrompt_request c prompt) = Inr q \<and>
     get_history e (requests s0 @ [queuePrompt_request c prompt])
       (getHistory_request c (prompt_id q)) = Inr hr \<and>
     hr (prompt_id q) = Some h \<and> outputImages s = Map.empty \<and>
     populate c e (outputs h) (map fst (outputs h)) s = (Inr (), s') \<and> r = outputImages s'"
proof -
  let ?g = "getImages c e prompt s0"
  let ?qp = "queuePrompt_request c prompt"
  have pg: "promise ?g = Pending"
  proof (rule ccontr)
    assume "promise ?g \<noteq> Pending"
    from deliver_settled[OF this, of c e evs] assms have "promise ?g = Resolved r" by simp
    then show False
      by (simp add: getImages_def queuePrompt_def axios_def ws_on_def
          split: option.splits sum.splits)
  qed
  then obtain sock q where sock: "ws c = Some sock"
    and q: "post_prompt e (requests s0) ?qp = Inr q"
    by (auto simp: getImages_def queuePrompt_def axios_def split: option.splits sum.splits)
  then have g: "requests ?g = requests s0 @ [?qp]" "promptId ?g = prompt_id q"
    "outputImages ?g = Map.empty"
    by (simp_all add: getImages_def queuePrompt_def axios_def ws_on_def)
  from deliver_resolved[OF pg assms] obtain pre ev post where
    p: "promise (deliver c e pre ?g) = Pending"
    and r: "promise (emit c e ev (deliver c e pre ?g)) = Resolved r" by blast
  let ?t = "deliver c e pre ?g"
  from deliver_pending[OF p] g have t: "requests ?t = requests s0 @ [?qp]"
    "outputImages ?t = Map.empty" "promptId ?t = prompt_id q"
    by (simp_all add: deliver_promptId)
  let ?t1 = "logger_info (Done_executing_prompt (Some (JStr (promptId ?t)))) ?t"
  from emit_resolved[OF p r] obtain u s2 where
    col: "collect c e ?t1 = (Inr u, s2)" and r2: "r = outputImages s2" by blast
  from collect_result[OF col] obtain hr h where
    "get_history e (requests ?t1) (getHistory_request c (promptId ?t1)) = Inr hr"
    "hr (promptId ?t1) = Some h"
    "populate c e (outputs h) (map fst (outputs h))
       (?t1\<lparr>requests := requests ?t1 @ [getHistory_request c (promptId ?t1)]\<rparr>) = (Inr u, s2)"
    by blast
  with t have
    "get_history e (requests s0 @ [?qp]) (getHistory_request c (prompt_id q)) = Inr hr"
    "hr (prompt_id q) = Some h"
    "populate c e (outputs h) (map fst (outputs h))
       (?t1\<lparr>requests := requests ?t1 @ [getHistory_request c (promptId ?t1)]\<rparr>) = (Inr (), s2)"
    "outputImages (?t1\<lparr>requests := requests ?t1 @ [getHistory_request c (promptId ?t1)]\<rparr>)
       = Map.empty"
    by (simp_all add: logger_info_def)
  with q r2 show ?thesis by blast
qed

subsection \<open>Claims\<close>

text \<open>
  Claim C9, as the code has it. The guard of \<^verbatim>\<open>getImages\<close> tests the \<^verbatim>\<open>ws\<close> field
  and nothing else. On a client that holds no socket (the field is undefined: never
  connected, or disconnected) the call rejects with the error of the guard,
  \<^verbatim>\<open>new Error('WebSocket client is not connected. ...')\<close>, before \<^verbatim>\<open>queuePrompt\<close> is
  called: no request is issued and nothing but the returned promise changes.
\<close>

theorem getImages_without_socket:
  assumes "ws c = None"
  shows "getImages c e prompt s = s\<lparr>promise := Rejected (Error not_connected)\<rparr> \<and>
         requests (getImages c e prompt s) = requests s"
  using assms by (simp add: getImages_def)

theorem getImages_without_socket_witness:
  "ws (new_ComfyUIClient ''127.0.0.1:8188'' ''c1'' False False) = None \<and>
   promise (getImages (new_ComfyUIClient ''127.0.0.1:8188'' ''c1'' False False) demo_env (JObj []) init)
     = Rejected (Error not_connected) \<and>
   requests (getImages (new_ComfyUIClient ''127.0.0.1:8188'' ''c1'' False False) demo_env (JObj []) init)
     = []"
proof -
  have h: "ws (new_ComfyUIClient ''127.0.0.1:8188'' ''c1'' False False) = None"
    by (simp add: new_ComfyUIClient_def)
  show ?thesis
    using h getImages_without_socket[OF h, of demo_env "JObj []" init]
    by (simp add: init_def)
qed

text \<open>
  A socket that has closed is still held: neither the \<^verbatim>\<open>close\<close> nor the \<^verbatim>\<open>error\<close>
  listener of \<^verbatim>\<open>connect\<close> clears the field, only \<^verbatim>\<open>disconnect\<close> does. With no
  connection alive the guard is passed all the same: the job is submitted, the
  listener is registered on the dead socket, and the promise stays pending.
\<close>

theorem getImages_on_closed_socket_submits:
  "ws demo_client = Some \<lparr>url = ''ws://127.0.0.1:8188/ws?clientId=c1''\<rparr> \<and>
   closed (init\<lparr>closed := True\<rparr>) \<and>
   requests (getImages demo_client demo_env (JObj []) (init\<lparr>closed := True\<rparr>))
     = [queuePrompt_request demo_client (JObj [])] \<and>
   promise (getImages demo_client demo_env (JObj []) (init\<lparr>closed := True\<rparr>)) = Pending \<and>
   promise (deliver demo_client demo_env [Message frame_done False]
     (getImages demo_client demo_env (JObj []) (init\<lparr>closed := True\<rparr>))) = Pending"
  by (simp add: getImages_def queuePrompt_def axios_def demo_client_simps demo_env_simps
      ws_on_def init_def)

lemma foreign_completion_irrelevant:
  assumes "completion_for e J1 ev" "J1 \<noteq> pid"
  shows "irrelevant e pid ev"
proof -
  from assms(1) obtain data where ev: "ev = Message data False"
    by (cases ev) (auto simp: completion_for_def)
  with assms(1) have "completion_for e J1 (Message data False)" by simp
  then obtain m d where
    "JSON_parse e data = Some (JObj m)" "map_of m ''data'' = Some (JObj d)"
    "map_of d ''prompt_id'' = Some (JStr J1)"
    unfolding completion_for_Message by blast
  with assms(2) ev show ?thesis
    by (simp add: irrelevant_def object_of_def string_of_def)
qed

text \<open>
  Claim C6. A tracking operation registered for job \<open>promptId s\<close> is not settled by
  completion events of another job \<open>J1\<close>: however many are delivered, the promise,
  the requests issued and the registration of the listener stay as they were.
\<close>

theorem other_job_completion_ignored:
  assumes "J1 \<noteq> promptId s" and "list_all (completion_for e J1) evs"
  shows "promise (deliver c e evs s) = promise s \<and>
         requests (deliver c e evs s) = requests s \<and>
         registered (deliver c e evs s) = registered s"
proof -
  from assms have "list_all (irrelevant e (promptId s)) evs"
    by (auto simp: list_all_iff intro: foreign_completion_irrelevant)
  from deliver_irrelevant[OF this, of c] have "(deliver c e evs s)\<lparr>log := log s\<rparr> = s" .
  then show ?thesis
    by (metis state.select_convs(1,4,7) state.surjective state.update_convs(2))
qed

theorem other_job_completion_ignored_witness:
  "''zzz'' \<noteq> promptId listening \<and>
   list_all (completion_for demo_env ''zzz'')
     [Message frame_other_done False, Message frame_other_done False] \<and>
   promise (deliver demo_client demo_env
     [Message frame_other_done False, Message frame_other_done False] listening) = Pending \<and>
   requests (deliver demo_client demo_env
     [Message frame_other_done False, Message frame_other_done False] listening)
     = [queuePrompt_request demo_client (JObj [])] \<and>
   registered (deliver demo_client demo_env
     [Message frame_other_done False, Message frame_other_done False] listening)"
proof -
  have h1: "''zzz'' \<noteq> promptId listening" by (simp add: listening_simps)
  have h2: "list_all (completion_for demo_env ''zzz'')
     [Message frame_other_done False, Message frame_other_done False]"
    by (simp add: completion_for_Message demo_env_simps demo_parse_simps)
  show ?thesis
    using h1 h2 other_job_completion_ignored[OF h1 h2, of demo_client]
    by (simp add: listening_simps)
qed

lemma parse_failure_emit:
  assumes "JSON_parse e data = None" and "registered s" and "\<not> closed s"
    and "promise s = Pending"
  shows "emit c e (Message data False) s = s\<lparr>promise := Rejected SyntaxError\<rparr>"
  using assms by (simp add: onMessage_def try_block_def reject_def)

text \<open>
  Claim C10. For an \<^verbatim>\<open>executing\<close> event of the tracked job, what decides is the
  truthiness of \<^verbatim>\<open>data.node\<close>: with a truthy node the listener returns and changes
  nothing; with a falsy node it takes the job as finished, that is, it logs, requests
  the history of the job and settles the promise from what \<open>collect\<close> yields.
  \<^verbatim>\<open>undefined\<close>, \<^verbatim>\<open>null\<close>, the empty string, \<^verbatim>\<open>0\<close> and \<^verbatim>\<open>false\<close> are falsy.
\<close>

theorem node_falsiness_decides:
  assumes "registered s" and "\<not> closed s"
    and "JSON_parse e data = Some (JObj m)"
    and "map_of m ''type'' = Some (JStr ''executing'')"
    and "map_of m ''data'' = Some (JObj d)"
    and "map_of d ''prompt_id'' = Some (JStr (promptId s))"
  shows "(truthy (map_of d ''node'') \<longrightarrow> emit c e (Message data False) s = s) \<and>
    (\<not> truthy (map_of d ''node'') \<longrightarrow>
       emit c e (Message data False) s =
         (case collect c e (logger_info (Done_executing_prompt (Some (JStr (promptId s)))) s) of
            (Inl err, s2) \<Rightarrow> reject err s2
          | (Inr u, s2) \<Rightarrow> resolve (outputImages s2) (ws_off c s2)) \<and>
       (\<exists>rest. requests (emit c e (Message data False) s)
          = requests s @ getHistory_request c (promptId s) # rest)) \<and>
    \<not> truthy None \<and> \<not> truthy (Some JNull) \<and> \<not> truthy (Some (JStr [])) \<and>
    \<not> truthy (Some (JNum 0)) \<and> \<not> truthy (Some (JBool False))"
proof -
  have t: "truthy (map_of d ''node'') \<Longrightarrow> emit c e (Message data False) s = s"
    using assms by (simp add: onMessage_def try_block_def)
  have f: "emit c e (Message data False) s =
         (case collect c e (logger_info (Done_executing_prompt (Some (JStr (promptId s)))) s) of
            (Inl err, s2) \<Rightarrow> reject err s2
          | (Inr u, s2) \<Rightarrow> resolve (outputImages s2) (ws_off c s2)) \<and>
       (\<exists>rest. requests (emit c e (Message data False) s)
          = requests s @ getHistory_request c (promptId s) # rest)"
    if falsy: "\<not> truthy (map_of d ''node'')"
  proof -
    let ?s1 = "logger_info (Done_executing_prompt (Some (JStr (promptId s)))) s"
    from assms falsy have comp: "completion_for e (promptId s) (Message data False)"
      unfolding completion_for_Message by simp
    note em = emit_completion[OF comp assms(1,2), of c]
    obtain res s2 where col: "collect c e ?s1 = (res, s2)" by (cases "collect c e ?s1")
    from collect_trace[OF col] obtain rs where
      "requests s2 = requests s @ getHistory_request c (promptId s) # rs"
      by (auto simp: logger_info_def)
    then have "requests (emit c e (Message data False) s)
        = requests s @ getHistory_request c (promptId s) # rs"
      unfolding em col
      by (cases res) (simp_all add: reject_def resolve_def ws_off_def split: option.splits)
    with em show ?thesis by blast
  qed
  have "\<not> truthy None \<and> \<not> truthy (Some JNull) \<and> \<not> truthy (Some (JStr [])) \<and>
    \<not> truthy (Some (JNum 0)) \<and> \<not> truthy (Some (JBool False))" by simp
  with t f show ?thesis by blast
qed

theorem node_falsiness_decides_witness:
  "emit demo_client demo_env (Message frame_progress False) listening = listening \<and>
   requests (emit demo_client demo_env (Message frame_done False) listening) =
     [queuePrompt_request demo_client (JObj []), getHistory_request demo_client ''abc123'',
      getImage_request demo_client img_a, getImage_request demo_client img_b]"
proof -
  have "emit demo_client demo_env (Message frame_progress False) listening = listening"
    using node_falsiness_decides[of listening demo_env frame_progress
        "[(''type'', JStr ''executing''),
          (''data'', JObj [(''node'', JStr ''3''), (''prompt_id'', JStr ''abc123'')])]"
        "[(''node'', JStr ''3''), (''prompt_id'', JStr ''abc123'')]" demo_client]
    by (simp add: listening_simps demo_env_simps demo_parse_simps del: emit.simps)
  then show ?thesis by (simp add: demo_done del: emit.simps)
qed

text \<open>
  Claim C4. A text frame that \<^verbatim>\<open>JSON.parse\<close> refuses rejects the pending promise with
  the SyntaxError, and nothing is retried; but the \<^verbatim>\<open>catch\<close> block does not call
  \<^verbatim>\<open>this.ws.off\<close>: the listener stays registered.
\<close>

theorem parse_failure_keeps_listener:
  assumes "JSON_parse e data = None" and "registered s" and "\<not> closed s"
    and "promise s = Pending"
  shows "emit c e (Message data False) s = s\<lparr>promise := Rejected SyntaxError\<rparr> \<and>
         registered (emit c e (Message data False) s)"
  using assms parse_failure_emit[of e data s c] by simp

theorem parse_failure_keeps_listener_witness:
  "JSON_parse demo_env frame_garbage = None \<and>
   promise (emit demo_client demo_env (Message frame_garbage False) listening)
     = Rejected SyntaxError \<and>
   registered (emit demo_client demo_env (Message frame_garbage False) listening)"
proof -
  have h: "JSON_parse demo_env frame_garbage = None"
    by (simp add: demo_env_simps demo_parse_simps)
  show ?thesis
    using h parse_failure_keeps_listener[OF h, of listening demo_client]
    by (simp add: listening_simps del: emit.simps)
qed

text \<open>
  Claim C2. A promise settles once, and after a resolution the listener is gone. After
  a failure it is not: once a malformed frame has rejected the promise, a completion
  event of the tracked job still makes the listener request the history (and the
  images); the outcome stays the first rejection.
\<close>

theorem history_fetched_after_failure:
  assumes "JSON_parse e bad = None" and "completion_for e (promptId s) ev"
    and "registered s" and "\<not> closed s" and "promise s = Pending"
  shows "promise (emit c e (Message bad False) s) = Rejected SyntaxError \<and>
    (\<exists>rest. requests (deliver c e [Message bad False, ev] s)
       = requests (emit c e (Message bad False) s) @ getHistory_request c (promptId s) # rest) \<and>
    promise (deliver c e [Message bad False, ev] s) = Rejected SyntaxError"
proof -
  let ?s1 = "s\<lparr>promise := Rejected SyntaxError\<rparr>"
  have s1: "emit c e (Message bad False) s = ?s1"
    by (rule parse_failure_emit[OF assms(1,3,4,5)])
  have comp: "completion_for e (promptId ?s1) ev" "registered ?s1" "\<not> closed ?s1"
    using assms by simp_all
  let ?s2 = "logger_info (Done_executing_prompt (Some (JStr (promptId ?s1)))) ?s1"
  obtain res s3 where col: "collect c e ?s2 = (res, s3)" by (cases "collect c e ?s2")
  from collect_trace[OF col] obtain rs oi where
    s3: "s3 = ?s2\<lparr>requests := requests ?s2 @ getHistory_request c (promptId ?s2) # rs,
                    outputImages := oi\<rparr>" by blast
  have em: "emit c e ev ?s1 =
     (case res of Inl err \<Rightarrow> reject err s3 | Inr u \<Rightarrow> resolve (outputImages s3) (ws_off c s3))"
    using emit_completion[OF comp, of c] col by (simp split: sum.splits)
  have "requests (emit c e ev ?s1) = requests s3" "promise (emit c e ev ?s1) = Rejected SyntaxError"
    unfolding em using s3
    by (cases res; simp add: reject_def resolve_def ws_off_def logger_info_def split: option.splits)+
  with s3 s1 show ?thesis by (simp add: logger_info_def del: emit.simps)
qed

theorem history_fetched_after_failure_witness:
  "JSON_parse demo_env frame_garbage = None \<and>
   completion_for demo_env (promptId listening) (Message frame_done False) \<and>
   promise (emit demo_client demo_env (Message frame_garbage False) listening)
     = Rejected SyntaxError \<and>
   requests (emit demo_client demo_env (Message frame_garbage False) listening)
     = [queuePrompt_request demo_client (JObj [])] \<and>
   take 2 (requests (deliver demo_client demo_env
       [Message frame_garbage False, Message frame_done False] listening))
     = [queuePrompt_request demo_client (JObj []), getHistory_request demo_client ''abc123'']"
proof -
  have h1: "JSON_parse demo_env frame_garbage = None"
    by (simp add: demo_env_simps demo_parse_simps)
  have h2: "completion_for demo_env (promptId listening) (Message frame_done False)"
    by (simp add: listening_simps demo_completion)
  from history_fetched_after_failure[OF h1 h2, of demo_client]
  obtain rest where
    "promise (emit demo_client demo_env (Message frame_garbage False) listening)
       = Rejected SyntaxError"
    "requests (deliver demo_client demo_env
         [Message frame_garbage False, Message frame_done False] listening)
       = requests (emit demo_client demo_env (Message frame_garbage False) listening)
         @ getHistory_request demo_client (promptId listening) # rest"
    by (auto simp: listening_simps simp del: emit.simps deliver.simps)
  moreover have "emit demo_client demo_env (Message frame_garbage False) listening
      = listening\<lparr>promise := Rejected SyntaxError\<rparr>"
    using parse_failure_emit[OF h1, of listening demo_client]
    by (simp add: listening_simps del: emit.simps)
  ultimately show ?thesis
    using h1 h2 by (simp add: listening_simps del: emit.simps deliver.simps)
qed

text \<open>
  Claim C3, as the code has it. When the socket closes before a completion event of the
  tracked job has been delivered, and the operation is pending at that moment, the
  close does not fail it: the \<^verbatim>\<open>close\<close> listener of \<^verbatim>\<open>connect\<close> writes its log line,
  no listener of \<^verbatim>\<open>getImages\<close> observes the close, and the promise remains
  unresolved (a closed socket delivers nothing more). No completion event has been
  delivered, so no listener run is in flight at the close.
\<close>

theorem close_leaves_operation_pending:
  assumes "list_all (\<lambda>ev. \<not> completion_for e (promptId s) ev) pre"
    and "promise (deliver c e pre s) = Pending"
  shows "promise (deliver c e (pre @ Close # post) s) = Pending \<and>
         log (deliver c e (pre @ [Close]) s)
           = (if closed (deliver c e pre s) then log (deliver c e pre s)
              else log (deliver c e pre s) @ [Connection_closed])"
proof -
  let ?t = "deliver c e pre s"
  have "closed (emit c e Close ?t)" by simp
  then have "deliver c e post (emit c e Close ?t) = emit c e Close ?t" by (rule deliver_closed)
  then have "deliver c e (pre @ Close # post) s = emit c e Close ?t"
    by (simp add: deliver_append del: emit.simps)
  moreover have "deliver c e (pre @ [Close]) s = emit c e Close ?t"
    by (simp add: deliver_append del: emit.simps)
  ultimately show ?thesis using assms(2) by (simp add: logger_info_def)
qed

theorem close_leaves_operation_pending_witness:
  "list_all (\<lambda>ev. \<not> completion_for demo_env (promptId listening) ev)
     [Message frame_progress False, Message frame_status False] \<and>
   promise (deliver demo_client demo_env
     [Message frame_progress False, Message frame_status False] listening) = Pending \<and>
   promise (deliver demo_client demo_env
     ([Message frame_progress False, Message frame_status False]
        @ Close # [Message frame_done False]) listening) = Pending \<and>
   log (deliver demo_client demo_env
     ([Message frame_progress False, Message frame_status False] @ [Close]) listening)
     = [Connection_closed]"
proof -
  have h1: "list_all (\<lambda>ev. \<not> completion_for demo_env (promptId listening) ev)
     [Message frame_progress False, Message frame_status False]"
    by (simp add: completion_for_Message demo_env_simps demo_parse_simps)
  have quiet: "deliver demo_client demo_env
     [Message frame_progress False, Message frame_status False] listening = listening"
    by (simp add: onMessage_def try_block_def demo_env_simps demo_parse_simps listening_simps)
  have h2: "promise (deliver demo_client demo_env
     [Message frame_progress False, Message frame_status False] listening) = Pending"
    unfolding quiet by (simp add: listening_simps)
  from close_leaves_operation_pending[OF h1 h2, of "[Message frame_done False]"] h1 h2
  show ?thesis unfolding quiet by (simp add: listening_simps)
qed

text \<open>
  The concrete run: after \<^verbatim>\<open>getImages\<close> the client listens for job \<^verbatim>\<open>abc123\<close>; the
  socket closes; the promise is still pending.
\<close>

theorem close_does_not_reject:
  "getImages demo_client demo_env (JObj []) init = listening \<and>
   promise (deliver demo_client demo_env [Close] listening) = Pending"
  by (simp add: demo_start listening_simps logger_info_def)

text \<open>
  Claim C1. Binary frames, events of another type and events of another job change
  nothing but the log, however many are delivered: what the operation does with the
  events that follow is what it would have done without them, and a pending operation
  resolves only if one of the events that follow is a completion event of the tracked job.
\<close>

theorem irrelevant_events_ignored:
  assumes "list_all (irrelevant e (promptId s)) pre"
  shows "(deliver c e pre s)\<lparr>log := log s\<rparr> = s \<and>
    (deliver c e (pre @ evs) s)\<lparr>log := []\<rparr> = (deliver c e evs s)\<lparr>log := []\<rparr> \<and>
    promise (deliver c e (pre @ evs) s) = promise (deliver c e evs s) \<and>
    requests (deliver c e (pre @ evs) s) = requests (deliver c e evs s) \<and>
    (promise s = Pending \<longrightarrow> promise (deliver c e (pre @ evs) s) = Resolved r \<longrightarrow>
       (\<exists>ev \<in> set evs. completion_for e (promptId s) ev))"
proof -
  let ?t = "deliver c e pre s"
  have a: "?t\<lparr>log := log s\<rparr> = s" using assms by (rule deliver_irrelevant)
  then have "(?t\<lparr>log := log s\<rparr>)\<lparr>log := []\<rparr> = s\<lparr>log := []\<rparr>" by simp
  then have "?t\<lparr>log := []\<rparr> = s\<lparr>log := []\<rparr>" by simp
  from deliver_same_but_log[OF this, of c e evs]
  have b: "(deliver c e (pre @ evs) s)\<lparr>log := []\<rparr> = (deliver c e evs s)\<lparr>log := []\<rparr>"
    by (simp add: deliver_append)
  have p: "promise (deliver c e (pre @ evs) s) = promise (deliver c e evs s)"
    using b by (metis state.select_convs(7) state.surjective state.update_convs(2))
  have q: "requests (deliver c e (pre @ evs) s) = requests (deliver c e evs s)"
    using b by (metis state.select_convs(1) state.surjective state.update_convs(2))
  have d: "\<exists>ev \<in> set evs. completion_for e (promptId s) ev"
    if "promise s = Pending" "promise (deliver c e (pre @ evs) s) = Resolved r"
    using resolved_needs_completion[OF that(1), of c e evs r] that(2) p by simp
  from a b p q d show ?thesis by blast
qed

theorem irrelevant_events_ignored_witness:
  "list_all (irrelevant demo_env (promptId listening))
     [Message frame_status False, Message [] True, Message frame_other_done False] \<and>
   promise (deliver demo_client demo_env
     ([Message frame_status False, Message [] True, Message frame_other_done False]
        @ [Message frame_done False]) listening)
     = Resolved [''9'' \<mapsto> [\<lparr>buffer = [137, 80, 78, 71], image = img_a\<rparr>,
                            \<lparr>buffer = [66], image = img_b\<rparr>]] \<and>
   requests (deliver demo_client demo_env
     [Message frame_status False, Message [] True, Message frame_other_done False] listening)
     = [queuePrompt_request demo_client (JObj [])]"
proof -
  have h: "list_all (irrelevant demo_env (promptId listening))
     [Message frame_status False, Message [] True, Message frame_other_done False]"
    by (simp add: irrelevant_def object_of_def string_of_def demo_env_simps demo_parse_simps
        listening_simps)
  have d: "deliver demo_client demo_env [Message frame_done False] listening
      = emit demo_client demo_env (Message frame_done False) listening"
    by (simp del: emit.simps)
  have "promise (deliver demo_client demo_env
     ([Message frame_status False, Message [] True, Message frame_other_done False]
        @ [Message frame_done False]) listening)
     = promise (deliver demo_client demo_env [Message frame_done False] listening)"
    using irrelevant_events_ignored[OF h, of demo_client "[Message frame_done False]"] by blast
  then have A: "promise (deliver demo_client demo_env
     ([Message frame_status False, Message [] True, Message frame_other_done False]
        @ [Message frame_done False]) listening)
     = Resolved [''9'' \<mapsto> [\<lparr>buffer = [137, 80, 78, 71], image = img_a\<rparr>,
                            \<lparr>buffer = [66], image = img_b\<rparr>]]"
    unfolding d demo_done by simp
  have "requests (deliver demo_client demo_env
     ([Message frame_status False, Message [] True, Message frame_other_done False] @ [])
        listening)
     = requests (deliver demo_client demo_env [] listening)"
    using irrelevant_events_ignored[OF h, of demo_client "[]"] by blast
  then have B: "requests (deliver demo_client demo_env
     [Message frame_status False, Message [] True, Message frame_other_done False] listening)
     = [queuePrompt_request demo_client (JObj [])]"
    by (simp add: listening_simps del: emit.simps)
  from h A B show ?thesis by blast
qed

text \<open>
  Claim C5. When an image request issued by the listener fails while the operation is
  pending, the promise is rejected with the error of that request, which carries the
  request (URL and the filename, subfolder and type of the reference); it is the last
  request issued, and the images fetched before it are not handed to the caller: the
  outcome is the rejection.
\<close>

theorem failed_fetch_rejects:
  assumes pend: "promise s = Pending"
    and k1: "length (requests s) < k"
    and k2: "k < length (requests (emit c e ev s))"
    and fail: "get_view e (take k (requests (emit c e ev s))) (requests (emit c e ev s) ! k) = Inl m"
  shows "promise (emit c e ev s) = Rejected (AxiosError m (requests (emit c e ev s) ! k)) \<and>
         Suc k = length (requests (emit c e ev s)) \<and>
         (\<exists>i. requests (emit c e ev s) ! k = getImage_request c i)"
proof -
  let ?s' = "emit c e ev s"
  let ?s1 = "logger_info (Done_executing_prompt (Some (JStr (promptId s)))) s"
  let ?h = "getHistory_request c (promptId s)"
  have loud: "completion_for e (promptId s) ev \<and> registered s \<and> \<not> closed s"
  proof (rule ccontr)
    assume "\<not> (completion_for e (promptId s) ev \<and> registered s \<and> \<not> closed s)"
    from emit_quiet[OF this, of c] have "requests ?s' = requests s" by auto
    with k1 k2 show False by simp
  qed
  with pend emit_loud[of e s ev c] obtain res s2 where
    col: "collect c e ?s1 = (res, s2)" and
    em: "?s' = (case res of Inl err \<Rightarrow> s2\<lparr>promise := Rejected err\<rparr>
                | Inr u \<Rightarrow> (ws_off c s2)\<lparr>promise := Resolved (outputImages s2)\<rparr>)"
    by blast
  from collect_trace[OF col] obtain rs oi where
    s2: "s2 = ?s1\<lparr>requests := requests ?s1 @ getHistory_request c (promptId ?s1) # rs,
                    outputImages := oi\<rparr>"
    and stops: "stops_at_failure e (requests ?s1 @ [getHistory_request c (promptId ?s1)]) rs res"
    and sub: "set rs \<subseteq> range (getImage_request c)" by blast
  have req: "requests ?s' = requests s @ ?h # rs"
    unfolding em using s2
    by (cases res) (simp_all add: logger_info_def ws_off_def split: option.splits)
  define j where "j = k - Suc (length (requests s))"
  from k1 k2 req have j: "j < length rs" "k = length (requests s) + Suc j"
    by (simp_all add: j_def)
  have nth: "requests ?s' ! k = rs ! j" unfolding req j(2) by (simp add: nth_append)
  have tk: "take k (requests ?s') = (requests s @ [?h]) @ take j rs" unfolding req j(2) by simp
  from fail nth tk have "get_view e ((requests s @ [?h]) @ take j rs) (rs ! j) = Inl m" by simp
  with stops j(1) have res: "res = Inl (AxiosError m (rs ! j))" and last: "Suc j = length rs"
    unfolding stops_at_failure_def by (simp_all add: logger_info_def)
  from em res have "promise ?s' = Rejected (AxiosError m (rs ! j))" by simp
  moreover from last j(2) req have "Suc k = length (requests ?s')" by simp
  moreover from sub j(1) have "\<exists>i. rs ! j = getImage_request c i"
    by (metis imageE nth_mem subsetD)
  ultimately show ?thesis using nth by simp
qed

theorem failed_fetch_rejects_witness:
  "promise listening = Pending \<and> length (requests listening) < 3 \<and>
   3 < length (requests (emit demo_client flaky_env (Message frame_done False) listening)) \<and>
   get_view flaky_env
     (take 3 (requests (emit demo_client flaky_env (Message frame_done False) listening)))
     (requests (emit demo_client flaky_env (Message frame_done False) listening) ! 3) = Inl ''404'' \<and>
   promise (emit demo_client flaky_env (Message frame_done False) listening)
     = Rejected (AxiosError ''404'' (getImage_request demo_client img_b)) \<and>
   outputImages (emit demo_client flaky_env (Message frame_done False) listening) = Map.empty"
proof -
  have h1: "promise listening = Pending" by (simp add: listening_simps)
  have h2: "length (requests listening) < 3" by (simp add: listening_simps)
  have h3: "3 < length (requests (emit demo_client flaky_env (Message frame_done False) listening))"
    unfolding flaky_done by simp
  have h4: "get_view flaky_env
     (take 3 (requests (emit demo_client flaky_env (Message frame_done False) listening)))
     (requests (emit demo_client flaky_env (Message frame_done False) listening) ! 3) = Inl ''404''"
    unfolding flaky_done by (simp add: demo_env_simps)
  from failed_fetch_rejects[OF h1 h2 h3 h4] h1 h2 h3 h4 show ?thesis
    unfolding flaky_done by simp
qed

text \<open>
  Claim C7. When the operation resolves, the server has answered the submission with
  a job identifier and the history request with a record of that job; for every output
  node of the record that declares images, the result holds under the node's key one
  artifact per declared reference, in the order of the record, each paired with the
  reference it was requested for; and when the answer to an image request depends on
  the request alone, the buffer of each artifact is the answer for its reference.
\<close>

theorem artifacts_in_listed_order:
  assumes "promise (deliver c e evs (getImages c e prompt s0)) = Resolved r"
  shows "\<exists>q hr h.
     post_prompt e (requests s0) (queuePrompt_request c prompt) = Inr q \<and>
     get_history e (requests s0 @ [queuePrompt_request c prompt])
       (getHistory_request c (prompt_id q)) = Inr hr \<and>
     hr (prompt_id q) = Some h \<and>
     (\<forall>n out imgs. map_of (outputs h) n = Some out \<and> images out = Some imgs \<longrightarrow>
        (\<exists>cs. r n = Some cs \<and> map image cs = imgs \<and>
           (\<forall>f. get_view e = (\<lambda>before. f) \<longrightarrow>
              list_all2 (\<lambda>x i. f (getImage_request c i) = Inr (buffer x)) cs imgs)))"
proof -
  from resolved_run[OF assms] obtain q hr h s s' where
    q: "post_prompt e (requests s0) (queuePrompt_request c prompt) = Inr q"
    and hr: "get_history e (requests s0 @ [queuePrompt_request c prompt])
       (getHistory_request c (prompt_id q)) = Inr hr"
    and h: "hr (prompt_id q) = Some h"
    and pop: "populate c e (outputs h) (map fst (outputs h)) s = (Inr (), s')"
    and r: "r = outputImages s'" by blast
  let ?Q = "\<lambda>cs imgs. map image cs = imgs \<and>
      (\<forall>f. get_view e = (\<lambda>before. f) \<longrightarrow>
         list_all2 (\<lambda>x i. f (getImage_request c i) = Inr (buffer x)) cs imgs)"
  have Q: "?Q cs imgs" if f: "fetch_images c e imgs [] t = (Inr cs, t')" for imgs t cs t'
  proof -
    from fetch_images_result[OF f] have "map image cs = imgs" by simp
    moreover have "list_all2 (\<lambda>x i. f (getImage_request c i) = Inr (buffer x)) cs imgs"
      if "get_view e = (\<lambda>before. f)" for f
      using fetch_images_deterministic[OF that f] by (auto elim: list_all2_mono)
    ultimately show ?thesis by blast
  qed
  have "\<exists>cs. r n = Some cs \<and> ?Q cs imgs"
    if "map_of (outputs h) n = Some out" "images out = Some imgs" for n out imgs
  proof -
    from that(1) have "n \<in> set (map fst (outputs h))" by (auto dest: map_of_SomeD intro: rev_image_eqI)
    from populate_node[where Q = ?Q, OF Q pop this that] r show ?thesis by simp
  qed
  with q hr h show ?thesis by blast
qed

theorem artifacts_in_listed_order_witness:
  "promise (deliver demo_client demo_env [Message frame_done False]
      (getImages demo_client demo_env (JObj []) init))
     = Resolved [''9'' \<mapsto> [\<lparr>buffer = [137, 80, 78, 71], image = img_a\<rparr>,
                            \<lparr>buffer = [66], image = img_b\<rparr>]] \<and>
   map_of (outputs (the (demo_history ''abc123''))) ''9'' = Some \<lparr>images = Some [img_a, img_b]\<rparr> \<and>
   map (filename \<circ> image) [\<lparr>buffer = [137, 80, 78, 71], image = img_a\<rparr>,
                            \<lparr>buffer = [66], image = img_b\<rparr>] = [''a.png'', ''b.png'']"
proof -
  have h: "promise (deliver demo_client demo_env [Message frame_done False]
      (getImages demo_client demo_env (JObj []) init))
     = Resolved [''9'' \<mapsto> [\<lparr>buffer = [137, 80, 78, 71], image = img_a\<rparr>,
                            \<lparr>buffer = [66], image = img_b\<rparr>]]"
    unfolding demo_start using demo_done by (simp del: emit.simps)
  from artifacts_in_listed_order[OF h] h show ?thesis
    by (simp add: demo_history_def img_a_def img_b_def)
qed

text \<open>
  Claim C8. When the operation resolves, the keys of the result are exactly the output
  nodes of the fetched history record that declare an \<^verbatim>\<open>images\<close> field; a node
  without the field has no entry.
\<close>

theorem result_keys_are_nodes_with_images:
  assumes "promise (deliver c e evs (getImages c e prompt s0)) = Resolved r"
  shows "\<exists>q hr h.
     post_prompt e (requests s0) (queuePrompt_request c prompt) = Inr q \<and>
     get_history e (requests s0 @ [queuePrompt_request c prompt])
       (getHistory_request c (prompt_id q)) = Inr hr \<and>
     hr (prompt_id q) = Some h \<and>
     dom r = {n. \<exists>out imgs. map_of (outputs h) n = Some out \<and> images out = Some imgs}"
proof -
  from resolved_run[OF assms] obtain q hr h s s' where
    q: "post_prompt e (requests s0) (queuePrompt_request c prompt) = Inr q"
    and hr: "get_history e (requests s0 @ [queuePrompt_request c prompt])
       (getHistory_request c (prompt_id q)) = Inr hr"
    and h: "hr (prompt_id q) = Some h"
    and empty: "outputImages s = Map.empty"
    and pop: "populate c e (outputs h) (map fst (outputs h)) s = (Inr (), s')"
    and r: "r = outputImages s'" by blast
  have "n \<in> dom r \<longleftrightarrow> (\<exists>out imgs. map_of (outputs h) n = Some out \<and> images out = Some imgs)"
    for n
  proof (cases "\<exists>out imgs. map_of (outputs h) n = Some out \<and> images out = Some imgs")
    case True
    then obtain out imgs where o: "map_of (outputs h) n = Some out" "images out = Some imgs"
      by blast
    then have "n \<in> set (map fst (outputs h))" by (auto dest: map_of_SomeD intro: rev_image_eqI)
    from populate_node[where Q = "\<lambda>cs imgs. True", OF _ pop this o] r True show ?thesis
      by auto
  next
    case False
    then have "Option.bind (map_of (outputs h) n) images = None"
      by (cases "map_of (outputs h) n") auto
    with populate_other[OF pop, of n] empty r False show ?thesis by auto
  qed
  then have "dom r = {n. \<exists>out imgs. map_of (outputs h) n = Some out \<and> images out = Some imgs}"
    by blast
  with q hr h show ?thesis by blast
qed

theorem result_keys_are_nodes_with_images_witness:
  "promise (deliver demo_client demo_env [Message frame_done False]
      (getImages demo_client demo_env (JObj []) init))
     = Resolved [''9'' \<mapsto> [\<lparr>buffer = [137, 80, 78, 71], image = img_a\<rparr>,
                            \<lparr>buffer = [66], image = img_b\<rparr>]] \<and>
   map fst (outputs (the (demo_history ''abc123''))) = [''9'', ''12''] \<and>
   dom [''9'' \<mapsto> [\<lparr>buffer = [137, 80, 78, 71], image = img_a\<rparr>,
                   \<lparr>buffer = [66 :: 8 word], image = img_b\<rparr>]] = {''9''}"
proof -
  have h: "promise (deliver demo_client demo_env [Message frame_done False]
      (getImages demo_client demo_env (JObj []) init))
     = Resolved [''9'' \<mapsto> [\<lparr>buffer = [137, 80, 78, 71], image = img_a\<rparr>,
                            \<lparr>buffer = [66], image = img_b\<rparr>]]"
    unfolding demo_start using demo_done by (simp del: emit.simps)
  from result_keys_are_nodes_with_images[OF h] h show ?thesis
    by (simp add: demo_history_def)
qed

end
